theory Spec2Isabelle
  imports Main "HOL-Library.AList" "HOL-Library.Sublist"
begin

section \<open>Action entity model\<close>

text \<open>
  The node type of the dependency graph is \<^verbatim>\<open>TaskAction\<close> of
  \<^verbatim>\<open>src/types/firestore-schema.ts\<close>. Optional fields (\<^verbatim>\<open>field?: T\<close>) are
  \<open>option\<close>s, \<open>None\<close> being JavaScript's \<^verbatim>\<open>undefined\<close>. The two completion stamps
  are declared \<^verbatim>\<open>number | null\<close> and \<^verbatim>\<open>string | null\<close> on top of being optional,
  so they get a three-valued type. The descriptive fields that no function below reads or
  writes (description, media specifications, approval status, priority, ...) are carried
  along by the object spread \<^verbatim>\<open>{ ...action }\<close> and are collected in one opaque field
  \<open>payload\<close>.
\<close>

datatype action_type =
    Text | LongText | FileUpload | Approval | Date | Document | Info
  | VideoUpload | VideoDecoupage | VideoEditing | AudioProcessing

datatype 'a nullable = Undefined | Null | Value 'a

record action_data =
  fileURLs :: "string list option"
  steps :: "string list option"

record TaskAction =
  action_id :: string
  title :: string
  atype :: action_type
  completed :: bool
  completedAt :: "nat nullable"
  completedBy :: "string nullable"
  dependsOn :: "string list option"
  nextActions :: "string list option"
  hasAttachments :: "bool option"
  data :: "action_data option"
  attachments :: "string list option"
  payload :: string

datatype error =
    TaskNotFound
  | ActionNotFound
  | DependenciesNotCompleted
  | DependentsCompleted
  | NonExistentDependency string string
  | NonExistentNextAction string string
  | DependencyCycle string string
  | UnsupportedFieldValue

section \<open>Cycle detection of the services and of the template page\<close>

text \<open>
  \<^verbatim>\<open>TaskService.checkForDependencyCycles\<close>, the function of the same name on the
  template page and \<^verbatim>\<open>ActionTemplateService.checkForDependencyCycles\<close> are the same
  text up to the field whose entries are followed: \<^verbatim>\<open>dependsOn\<close> in the first two,
  \<^verbatim>\<open>nextActions\<close> in the third. The model takes that field as the parameter \<open>edges\<close>.

  \<^verbatim>\<open>actionMap\<close> is a JavaScript \<^verbatim>\<open>Map\<close>: \<^verbatim>\<open>set\<close> on a key that is present replaces
  its value in place, on a new key it appends. That is \<open>AList.update\<close>; \<^verbatim>\<open>get\<close> is
  \<open>map_of\<close>. \<^verbatim>\<open>visited\<close> and \<^verbatim>\<open>recursionStack\<close> are the two mutable sets the closure
  \<^verbatim>\<open>checkCycle\<close> shares; they are threaded through as a record.
\<close>

definition actionMap_of :: "TaskAction list \<Rightarrow> (string \<times> TaskAction) list" where
  "actionMap_of actions = foldl (\<lambda>m a. AList.update (action_id a) a m) [] actions"

record dfs_state =
  visited :: "string set"
  recursionStack :: "string set"

text \<open>
  \<open>checkCycle\<close> is the closure; \<open>checkCycle_deps\<close> is its \<^verbatim>\<open>for (const depId of ...)\<close>
  loop over the entries still to be looked at. Both return \<open>Inl\<close> when the source throws
  and otherwise the boolean the source returns (for the loop: whether it left through
  \<^verbatim>\<open>return true\<close>) together with the two sets.
\<close>

definition enter :: "string \<Rightarrow> dfs_state \<Rightarrow> dfs_state" where
  "enter actionId s =
     s\<lparr>visited := insert actionId (visited s),
       recursionStack := insert actionId (recursionStack s)\<rparr>"

definition leave :: "string \<Rightarrow> dfs_state \<Rightarrow> dfs_state" where
  "leave actionId s = s\<lparr>recursionStack := recursionStack s - {actionId}\<rparr>"

function checkCycle ::
    "(TaskAction \<Rightarrow> string list option) \<Rightarrow> (string \<times> TaskAction) list \<Rightarrow> string \<Rightarrow>
     dfs_state \<Rightarrow> error + (bool \<times> dfs_state)"
  and checkCycle_deps ::
    "(TaskAction \<Rightarrow> string list option) \<Rightarrow> (string \<times> TaskAction) list \<Rightarrow> string \<Rightarrow>
     string list \<Rightarrow> dfs_state \<Rightarrow> error + (bool \<times> dfs_state)"
  where
  "checkCycle edges actionMap actionId s =
     (if actionId \<notin> visited s then
        (case (case map_of actionMap actionId of
                 None \<Rightarrow> Inr (False, enter actionId s)
               | Some action \<Rightarrow>
                   (case edges action of
                      None \<Rightarrow> Inr (False, enter actionId s)
                    | Some deps \<Rightarrow>
                        checkCycle_deps edges actionMap actionId deps (enter actionId s))) of
           Inl e \<Rightarrow> Inl e
         | Inr (r, s') \<Rightarrow> if r then Inr (True, s') else Inr (False, leave actionId s'))
      else Inr (False, s))"
| "checkCycle_deps edges actionMap actionId [] s = Inr (False, s)"
| "checkCycle_deps edges actionMap actionId (depId # deps) s =
     (if depId \<notin> visited s then
        (case checkCycle edges actionMap depId s of
           Inl e \<Rightarrow> Inl e
         | Inr (r, s') \<Rightarrow>
             if r then Inr (True, s')
             else if depId \<in> recursionStack s' then Inl (DependencyCycle actionId depId)
             else checkCycle_deps edges actionMap actionId deps s')
      else if depId \<in> recursionStack s then Inl (DependencyCycle actionId depId)
      else checkCycle_deps edges actionMap actionId deps s)"
  by pat_completeness auto


lemma visited_enter [simp]: "visited (enter a s) = insert a (visited s)"
  by (simp add: enter_def)

lemma recursionStack_enter [simp]:
  "recursionStack (enter a s) = insert a (recursionStack s)"
  by (simp add: enter_def)

lemma visited_leave [simp]: "visited (leave a s) = visited s"
  by (simp add: leave_def)

lemma recursionStack_leave [simp]: "recursionStack (leave a s) = recursionStack s - {a}"
  by (simp add: leave_def)

text \<open>
  The recursion is nested: the loop goes on from the sets the recursive call left behind.
  It terminates because \<^verbatim>\<open>visited\<close> only grows and every call that recurses adds a key
  of \<^verbatim>\<open>actionMap\<close> that was not in it.
\<close>

lemma checkCycle_visited_mono_dom:
  "checkCycle_checkCycle_deps_dom (Inl (e, m, a, s)) \<Longrightarrow>
     (\<And>r s'. checkCycle e m a s = Inr (r, s') \<Longrightarrow> visited s \<subseteq> visited s')"
  "checkCycle_checkCycle_deps_dom (Inr (e, m, a, ds, s)) \<Longrightarrow>
     (\<And>r s'. checkCycle_deps e m a ds s = Inr (r, s') \<Longrightarrow> visited s \<subseteq> visited s')"
proof (induct rule: checkCycle_checkCycle_deps.pinduct)
  case (1 edges actionMap actionId s)
  from "1.prems" "1.hyps"(2) show ?case
    by (auto simp: checkCycle.psimps[OF "1.hyps"(1)]
             split: if_splits option.splits sum.splits prod.splits) blast+
next
  case (2 edges actionMap actionId s)
  then show ?case by (simp add: checkCycle_deps.psimps)
next
  case (3 edges actionMap actionId depId deps s)
  from "3.prems" "3.hyps"(2-) show ?case
    by (auto simp: checkCycle_deps.psimps(2)[OF "3.hyps"(1)]
             split: if_splits option.splits sum.splits prod.splits) blast+
qed

termination checkCycle
proof (relation "inv_image (less_than <*lex*> less_than)
      (\<lambda>x. case x of
              Inl (e, m, a, s) \<Rightarrow> (card (fst ` set m - visited s), 0)
            | Inr (e, m, a, ds, s) \<Rightarrow> (card (fst ` set m - visited s), Suc (length ds)))",
       goal_cases)
  case 1
  show ?case by (intro wf_inv_image wf_lex_prod wf_less_than)
next
  case (2 edges actionMap actionId s x2 x2a)
  have "actionId \<in> fst ` set actionMap"
    using 2(2) by (metis map_of_SomeD fst_conv image_eqI)
  then have "fst ` set actionMap - insert actionId (visited s)
               \<subset> fst ` set actionMap - visited s"
    using 2(1) by auto
  then have "card (fst ` set actionMap - insert actionId (visited s))
               < card (fst ` set actionMap - visited s)"
    by (intro psubset_card_mono) auto
  then show ?case by simp
next
  case 3
  then show ?case by simp
next
  case (4 edges actionMap actionId depId deps s b x y)
  have "visited s \<subseteq> visited y"
    using checkCycle_visited_mono_dom(1)[OF 4(6)] 4(2,3) by metis
  then have "card (fst ` set actionMap - visited y) \<le> card (fst ` set actionMap - visited s)"
    by (intro card_mono) auto
  then show ?case by auto
next
  case 5
  then show ?case by simp
qed

declare checkCycle.simps [simp del]

text \<open>
  The loop \<^verbatim>\<open>for (const action of actions)\<close> at the end of
  \<^verbatim>\<open>checkForDependencyCycles\<close> starts \<open>checkCycle\<close> at every action that is not yet
  visited and drops the boolean.
\<close>

fun checkCycle_roots ::
    "(TaskAction \<Rightarrow> string list option) \<Rightarrow> (string \<times> TaskAction) list \<Rightarrow>
     TaskAction list \<Rightarrow> dfs_state \<Rightarrow> error + dfs_state" where
  "checkCycle_roots edges actionMap [] s = Inr s"
| "checkCycle_roots edges actionMap (action # actions) s =
     (if action_id action \<notin> visited s then
        (case checkCycle edges actionMap (action_id action) s of
           Inl e \<Rightarrow> Inl e
         | Inr (r, s') \<Rightarrow> checkCycle_roots edges actionMap actions s')
      else checkCycle_roots edges actionMap actions s)"

definition checkForDependencyCycles ::
    "(TaskAction \<Rightarrow> string list option) \<Rightarrow> TaskAction list \<Rightarrow> error + unit" where
  "checkForDependencyCycles edges actions =
     (case checkCycle_roots edges (actionMap_of actions) actions
             \<lparr>visited = {}, recursionStack = {}\<rparr> of
        Inl e \<Rightarrow> Inl e
      | Inr s \<Rightarrow> Inr ())"

text \<open>
  The existence check that precedes the cycle check: the inner loop over the entries of one
  field of one action, throwing at the first entry that is not the id of an action.
\<close>

fun entries_exist ::
    "(string \<Rightarrow> string \<Rightarrow> error) \<Rightarrow> string set \<Rightarrow> string \<Rightarrow> string list option \<Rightarrow>
     error + unit" where
  "entries_exist err actionIds actionId None = Inr ()"
| "entries_exist err actionIds actionId (Some []) = Inr ()"
| "entries_exist err actionIds actionId (Some (depId # deps)) =
     (if depId \<notin> actionIds then Inl (err actionId depId)
      else entries_exist err actionIds actionId (Some deps))"

text \<open>\<^verbatim>\<open>TaskService.validateActionDependencies\<close>.\<close>

fun TaskService_dependencies_exist :: "string set \<Rightarrow> TaskAction list \<Rightarrow> error + unit" where
  "TaskService_dependencies_exist actionIds [] = Inr ()"
| "TaskService_dependencies_exist actionIds (action # actions) =
     (case entries_exist NonExistentDependency actionIds (action_id action)
             (dependsOn action) of
        Inl e \<Rightarrow> Inl e
      | Inr u \<Rightarrow> TaskService_dependencies_exist actionIds actions)"

definition TaskService_validateActionDependencies :: "TaskAction list \<Rightarrow> error + unit" where
  "TaskService_validateActionDependencies actions =
     (case TaskService_dependencies_exist (set (map action_id actions)) actions of
        Inl e \<Rightarrow> Inl e
      | Inr u \<Rightarrow> checkForDependencyCycles dependsOn actions)"

text \<open>
  \<^verbatim>\<open>ActionTemplateService.validateActionDependencies\<close> checks, action by action, the
  entries of \<^verbatim>\<open>dependsOn\<close> and then those of \<^verbatim>\<open>nextActions\<close>; its
  \<^verbatim>\<open>checkForDependencyCycles\<close> follows \<^verbatim>\<open>nextActions\<close>.
\<close>

fun ActionTemplateService_references_exist ::
    "string set \<Rightarrow> TaskAction list \<Rightarrow> error + unit" where
  "ActionTemplateService_references_exist actionIds [] = Inr ()"
| "ActionTemplateService_references_exist actionIds (action # actions) =
     (case entries_exist NonExistentDependency actionIds (action_id action)
             (dependsOn action) of
        Inl e \<Rightarrow> Inl e
      | Inr u \<Rightarrow>
          (case entries_exist NonExistentNextAction actionIds (action_id action)
                  (nextActions action) of
             Inl e \<Rightarrow> Inl e
           | Inr u \<Rightarrow> ActionTemplateService_references_exist actionIds actions))"

definition ActionTemplateService_validateActionDependencies ::
    "TaskAction list \<Rightarrow> error + unit" where
  "ActionTemplateService_validateActionDependencies actions =
     (case ActionTemplateService_references_exist (set (map action_id actions)) actions of
        Inl e \<Rightarrow> Inl e
      | Inr u \<Rightarrow> checkForDependencyCycles nextActions actions)"

text \<open>
  \<^verbatim>\<open>createActionTemplate\<close>: the validation runs before \<^verbatim>\<open>setDoc\<close>, and a throw leaves
  the collection \<^verbatim>\<open>actionTemplates\<close> as it was. A template is kept with its title and its
  elements; the document id Firestore generates is the parameter \<open>templateId\<close>, and the
  stamps \<^verbatim>\<open>order\<close>, \<^verbatim>\<open>createdBy\<close>, \<^verbatim>\<open>createdAt\<close> and \<^verbatim>\<open>updatedAt\<close> are left out.
\<close>

record ActionTemplateSchema =
  template_title :: string
  template_elements :: "TaskAction list"

definition createActionTemplate ::
    "string \<Rightarrow> ActionTemplateSchema \<Rightarrow> (string \<Rightarrow> ActionTemplateSchema option) \<Rightarrow>
     (error + ActionTemplateSchema) \<times> (string \<Rightarrow> ActionTemplateSchema option)" where
  "createActionTemplate templateId templateData db =
     (case ActionTemplateService_validateActionDependencies (template_elements templateData) of
        Inl e \<Rightarrow> (Inl e, db)
      | Inr u \<Rightarrow> (Inr templateData, db(templateId \<mapsto> templateData)))"

section \<open>Level organizer\<close>

text \<open>
  \<^verbatim>\<open>WorkflowVisualizer.actionLevels\<close> (\<^verbatim>\<open>src/components/workflow/WorkflowVisualizer.tsx\<close>)
  and \<^verbatim>\<open>organizeActions\<close> of the template page are the same statements, one inside
  \<^verbatim>\<open>useMemo\<close>. \<open>organize_loop\<close> is the \<^verbatim>\<open>while (currentLevel.length > 0)\<close> loop with
  the two variables it assigns, \<^verbatim>\<open>levels\<close> and \<^verbatim>\<open>currentLevel\<close>.
\<close>

definition no_dependencies :: "TaskAction \<Rightarrow> bool" where
  "no_dependencies action =
     (case dependsOn action of None \<Rightarrow> True | Some deps \<Rightarrow> deps = [])"

definition processedActionIds_of :: "TaskAction list list \<Rightarrow> string set" where
  "processedActionIds_of levels = set (map action_id (concat levels))"

definition in_nextLevel :: "string set \<Rightarrow> TaskAction \<Rightarrow> bool" where
  "in_nextLevel processedActionIds action =
     (if action_id action \<in> processedActionIds then False
      else (case dependsOn action of
              None \<Rightarrow> True
            | Some deps \<Rightarrow> list_all (\<lambda>depId. depId \<in> processedActionIds) deps))"

lemma length_filter_in_nextLevel_less:
  assumes "currentLevel \<noteq> []"
    and "set currentLevel \<subseteq> {a \<in> set actions. action_id a \<notin> P}"
  shows "length (filter (\<lambda>a. action_id a \<notin> P \<union> action_id ` set currentLevel) actions)
           < length (filter (\<lambda>a. action_id a \<notin> P) actions)"
proof -
  obtain x where x: "x \<in> set currentLevel"
    using assms(1) by (cases currentLevel) auto
  have eq: "filter (\<lambda>a. action_id a \<notin> P \<union> action_id ` set currentLevel) actions =
        filter (\<lambda>a. action_id a \<notin> action_id ` set currentLevel)
          (filter (\<lambda>a. action_id a \<notin> P) actions)"
    by (auto simp: filter_filter intro: filter_cong)
  have "x \<in> set (filter (\<lambda>a. action_id a \<notin> P) actions)"
    using x assms(2) by auto
  moreover have "\<not> action_id x \<notin> action_id ` set currentLevel"
    using x by simp
  ultimately show ?thesis
    unfolding eq by (rule length_filter_less)
qed

function organize_loop ::
    "TaskAction list \<Rightarrow> TaskAction list list \<Rightarrow> TaskAction list \<Rightarrow> TaskAction list list" where
  "organize_loop actions levels currentLevel =
     (if currentLevel \<noteq> [] then
        organize_loop actions (levels @ [currentLevel])
          (filter (in_nextLevel (processedActionIds_of (levels @ [currentLevel]))) actions)
      else levels)"
  by pat_completeness auto

termination organize_loop
proof (relation "measure (\<lambda>(actions, levels, currentLevel).
          if currentLevel = [] then 0
          else Suc (length (filter
                 (\<lambda>a. action_id a \<notin> processedActionIds_of (levels @ [currentLevel]))
                 actions)))", goal_cases)
  case 1
  show ?case by simp
next
  case (2 actions levels currentLevel)
  let ?P = "processedActionIds_of (levels @ [currentLevel])"
  let ?next = "filter (in_nextLevel ?P) actions"
  show ?case
  proof (cases "?next = []")
    case True
    with 2 show ?thesis by simp
  next
    case False
    have sub: "set ?next \<subseteq> {a \<in> set actions. action_id a \<notin> ?P}"
      by (auto simp: in_nextLevel_def split: if_splits)
    have P': "processedActionIds_of ((levels @ [currentLevel]) @ [?next])
                = ?P \<union> action_id ` set ?next"
      by (auto simp: processedActionIds_of_def)
    have "length (filter (\<lambda>a. action_id a \<notin> ?P \<union> action_id ` set ?next) actions)
            < length (filter (\<lambda>a. action_id a \<notin> ?P) actions)"
      using False sub by (rule length_filter_in_nextLevel_less)
    with 2 False show ?thesis
      by (simp add: P' del: append_assoc)
  qed
qed

declare organize_loop.simps [simp del]

definition organizeActions :: "TaskAction list \<Rightarrow> TaskAction list list" where
  "organizeActions actions = organize_loop actions [] (filter no_dependencies actions)"

definition actionLevels :: "TaskAction list \<Rightarrow> TaskAction list list" where
  "actionLevels actions = organize_loop actions [] (filter no_dependencies actions)"

section \<open>Availability evaluator and completion state machine of the task service\<close>

text \<open>
  A task document, with the fields the modelled methods read or write (the field
  \<^verbatim>\<open>actions\<close> is \<open>task_actions\<close> here), and the Firestore collection \<^verbatim>\<open>tasks\<close> as
  a map from document ids. \<^verbatim>\<open>Date.now()\<close> and \<^verbatim>\<open>auth.currentUser?.uid\<close> are read from
  the environment; they are the parameters \<open>now\<close> and \<open>uid\<close>. The project, notification
  and activity services called after the document has been written are outside the model;
  of the notification only the list of actions it counts is kept.
\<close>

datatype task_status = Pending | InProgress | WaitingApproval | Completed | Blocked

record TaskSchema =
  status :: task_status
  assignedTo :: string
  task_actions :: "TaskAction list"
  updatedAt :: nat

type_synonym tasks_db = "string \<Rightarrow> TaskSchema option"

record completion_data =
  data_attachments :: "string list option"

definition getTaskById :: "tasks_db \<Rightarrow> string \<Rightarrow> error + TaskSchema" where
  "getTaskById db taskId =
     (case db taskId of None \<Rightarrow> Inl TaskNotFound | Some taskData \<Rightarrow> Inr taskData)"

text \<open>
  The callback of \<^verbatim>\<open>dependsOn.every\<close>, the same in \<^verbatim>\<open>completeTaskAction\<close>,
  \<^verbatim>\<open>getAvailableActions\<close> and \<^verbatim>\<open>getTaskWorkflowStats\<close>:
  \<^verbatim>\<open>dependency && dependency.completed\<close> for the first action with that id, which is
  falsy when there is none.
\<close>

definition dependency_completed :: "TaskAction list \<Rightarrow> string \<Rightarrow> bool" where
  "dependency_completed actions depId =
     (case find (\<lambda>a. action_id a = depId) actions of
        None \<Rightarrow> False
      | Some dependency \<Rightarrow> completed dependency)"

definition available_filter :: "TaskAction list \<Rightarrow> TaskAction \<Rightarrow> bool" where
  "available_filter actions action =
     (if completed action then False
      else (case dependsOn action of
              None \<Rightarrow> True
            | Some deps \<Rightarrow>
                if length deps = 0 then True
                else list_all (dependency_completed actions) deps))"

definition getAvailableActions :: "tasks_db \<Rightarrow> string \<Rightarrow> error + TaskAction list" where
  "getAvailableActions db taskId =
     (case getTaskById db taskId of
        Inl e \<Rightarrow> Inl e
      | Inr taskData \<Rightarrow>
          Inr (filter (available_filter (task_actions taskData)) (task_actions taskData)))"

definition blocked_filter :: "TaskAction list \<Rightarrow> TaskAction \<Rightarrow> bool" where
  "blocked_filter actions action =
     (if completed action then False
      else (case dependsOn action of
              None \<Rightarrow> False
            | Some deps \<Rightarrow>
                if length deps = 0 then False
                else \<not> list_all (dependency_completed actions) deps))"

text \<open>
  The result of \<^verbatim>\<open>getTaskWorkflowStats\<close> without \<^verbatim>\<open>progress\<close>, which is a rounded
  floating-point quotient.
\<close>

record workflow_stats =
  totalActions :: nat
  completedActions :: nat
  nextActions_of :: "TaskAction list"
  blockedActions :: "TaskAction list"

definition getTaskWorkflowStats :: "tasks_db \<Rightarrow> string \<Rightarrow> error + workflow_stats" where
  "getTaskWorkflowStats db taskId =
     (case getTaskById db taskId of
        Inl e \<Rightarrow> Inl e
      | Inr taskData \<Rightarrow>
          (case getAvailableActions db taskId of
             Inl e \<Rightarrow> Inl e
           | Inr nextActs \<Rightarrow>
               Inr \<lparr>totalActions = length (task_actions taskData),
                    completedActions = length (filter completed (task_actions taskData)),
                    nextActions_of = nextActs,
                    blockedActions =
                      filter (blocked_filter (task_actions taskData))
                        (task_actions taskData)\<rparr>))"

text \<open>
  \<^verbatim>\<open>completeTaskAction\<close>. \<open>complete_action\<close> is the body of the \<^verbatim>\<open>map\<close> callback for
  an action whose id is the one asked for. The argument \<^verbatim>\<open>data\<close> is \<open>cdata\<close>, \<open>None\<close>
  when it is missing; an array is truthy even when empty.
\<close>

definition data_or_empty :: "action_data option \<Rightarrow> action_data" where
  "data_or_empty d = (case d of None \<Rightarrow> \<lparr>fileURLs = None, steps = None\<rparr> | Some x \<Rightarrow> x)"

definition complete_action ::
    "nat \<Rightarrow> string option \<Rightarrow> completion_data option \<Rightarrow> TaskAction \<Rightarrow> TaskAction" where
  "complete_action now uid cdata action =
     (let updatedAction =
            action\<lparr>completed := True,
                   completedAt := Value now,
                   completedBy := (case uid of None \<Rightarrow> Undefined | Some u \<Rightarrow> Value u)\<rparr>
      in if atype action = Info \<and> hasAttachments action = Some True
            \<and> (case cdata of None \<Rightarrow> False | Some d \<Rightarrow> data_attachments d \<noteq> None)
         then updatedAction\<lparr>data :=
                Some ((data_or_empty (data updatedAction))
                        \<lparr>fileURLs := (case cdata of None \<Rightarrow> None
                                       | Some d \<Rightarrow> data_attachments d)\<rparr>)\<rparr>
         else if atype action = Document \<and> cdata \<noteq> None
         then updatedAction\<lparr>data :=
                Some ((data_or_empty (data updatedAction))
                        \<lparr>steps :=
                           Some (case steps (data_or_empty (data updatedAction)) of
                                   None \<Rightarrow> [] | Some x \<Rightarrow> x),
                         fileURLs :=
                           Some (case fileURLs (data_or_empty (data updatedAction)) of
                                   None \<Rightarrow> [] | Some x \<Rightarrow> x)\<rparr>)\<rparr>
         else updatedAction)"

text \<open>
  The methods return the outcome (\<open>Inl\<close> for a throw) paired with the collection as it is
  when they leave. For \<^verbatim>\<open>completeTaskAction\<close> the value on success is
  \<^verbatim>\<open>dependentActions\<close>, the list whose length the notification
  \<^verbatim>\<open>Novas Acoes Disponiveis\<close> reports.

  \<^verbatim>\<open>updateDoc\<close> throws on data that holds a field whose value is \<^verbatim>\<open>undefined\<close>: the
  service takes \<^verbatim>\<open>getFirestore()\<close> with its default settings, under which such a value
  is unsupported. An action read from a document has no such field, so it can only be one
  the \<^verbatim>\<open>map\<close> callback writes into the objects it builds for the id asked for:
  \<^verbatim>\<open>completedBy: auth.currentUser?.uid\<close> in \<^verbatim>\<open>completeTaskAction\<close> and
  \<^verbatim>\<open>attachments: ... : action.attachments\<close> in \<^verbatim>\<open>uncompleteTaskAction\<close>.
  \<open>updateDoc_rejects\<close> looks for it in the actions about to be written; the throw comes
  before anything is stored.
\<close>

definition updateDoc_rejects ::
    "(TaskAction \<Rightarrow> bool) \<Rightarrow> string \<Rightarrow> TaskAction list \<Rightarrow> bool" where
  "updateDoc_rejects written_undefined actionId updatedActions =
     list_ex (\<lambda>action. action_id action = actionId \<and> written_undefined action)
       updatedActions"

definition completeTaskAction ::
    "nat \<Rightarrow> string option \<Rightarrow> string \<Rightarrow> string \<Rightarrow> completion_data option \<Rightarrow> tasks_db \<Rightarrow>
     (error + TaskAction list) \<times> tasks_db" where
  "completeTaskAction now uid taskId actionId cdata db =
     (case db taskId of
        None \<Rightarrow> (Inl TaskNotFound, db)
      | Some taskData \<Rightarrow>
          (case find (\<lambda>action. action_id action = actionId) (task_actions taskData) of
             None \<Rightarrow> (Inl ActionNotFound, db)
           | Some actionToComplete \<Rightarrow>
               if (case dependsOn actionToComplete of
                     None \<Rightarrow> False
                   | Some deps \<Rightarrow>
                       length deps > 0
                       \<and> \<not> list_all (dependency_completed (task_actions taskData)) deps)
               then (Inl DependenciesNotCompleted, db)
               else
                 let updatedActions =
                       map (\<lambda>action. if action_id action = actionId
                                      then complete_action now uid cdata action
                                      else action)
                         (task_actions taskData)
                 in if updateDoc_rejects (\<lambda>action. completedBy action = Undefined)
                         actionId updatedActions
                    then (Inl UnsupportedFieldValue, db)
                    else
                      let written =
                            taskData\<lparr>task_actions := updatedActions, updatedAt := now\<rparr>;
                          allActionsCompleted = list_all completed updatedActions;
                          final =
                            (if allActionsCompleted \<and> status taskData = InProgress
                             then written\<lparr>status := WaitingApproval, updatedAt := now\<rparr>
                             else written);
                          dependentActions =
                            filter (\<lambda>action.
                                      (case dependsOn action of
                                         None \<Rightarrow> False
                                       | Some deps \<Rightarrow> actionId \<in> set deps)
                                      \<and> \<not> completed action)
                              updatedActions
                      in (Inr dependentActions, db(taskId \<mapsto> final))))"

definition uncomplete_action :: "TaskAction \<Rightarrow> TaskAction" where
  "uncomplete_action action =
     action\<lparr>completed := False,
            completedAt := Null,
            completedBy := Null,
            attachments :=
              (if atype action = Info \<and> hasAttachments action = Some True
               then Some [] else attachments action)\<rparr>"

definition uncompleteTaskAction ::
    "nat \<Rightarrow> string \<Rightarrow> string \<Rightarrow> tasks_db \<Rightarrow> (error + unit) \<times> tasks_db" where
  "uncompleteTaskAction now taskId actionId db =
     (case db taskId of
        None \<Rightarrow> (Inl TaskNotFound, db)
      | Some taskData \<Rightarrow>
          (case find (\<lambda>action. action_id action = actionId) (task_actions taskData) of
             None \<Rightarrow> (Inl ActionNotFound, db)
           | Some actionToUncomplete \<Rightarrow>
               let dependentActions =
                     filter (\<lambda>action.
                               (case dependsOn action of
                                  None \<Rightarrow> False
                                | Some deps \<Rightarrow> actionId \<in> set deps)
                               \<and> completed action)
                       (task_actions taskData)
               in if length dependentActions > 0
                  then (Inl DependentsCompleted, db)
                  else
                    let updatedActions =
                          map (\<lambda>action. if action_id action = actionId
                                         then uncomplete_action action
                                         else action)
                            (task_actions taskData)
                    in if updateDoc_rejects (\<lambda>action. attachments action = None)
                            actionId updatedActions
                       then (Inl UnsupportedFieldValue, db)
                       else
                         let written =
                               taskData\<lparr>task_actions := updatedActions, updatedAt := now\<rparr>;
                             final =
                               (if status taskData = WaitingApproval
                                then written\<lparr>status := InProgress, updatedAt := now\<rparr>
                                else written)
                         in (Inr (), db(taskId \<mapsto> final))))"

section \<open>Editing dependencies\<close>

subsection \<open>The template page: \<^verbatim>\<open>handleUpdateDependencies\<close>\<close>

text \<open>
  The page state the handler reads and sets. \<^verbatim>\<open>elementsByStep\<close> is an object with
  integer keys; \<^verbatim>\<open>Object.values\<close> and \<^verbatim>\<open>Object.entries\<close> go through it in
  ascending key order, and the handler writes back under the key it found, so the model
  keeps the values in that order. \<^verbatim>\<open>findIndex\<close> returns \<open>None\<close> for \<^verbatim>\<open>-1\<close>.
\<close>

record page_state =
  elementsByStep :: "TaskAction list list"
  page_error :: "error option"
  showDependencyEditor :: bool

fun findIndex :: "('a \<Rightarrow> bool) \<Rightarrow> 'a list \<Rightarrow> nat option" where
  "findIndex P [] = None"
| "findIndex P (x # xs) =
     (if P x then Some 0 else (case findIndex P xs of None \<Rightarrow> None | Some i \<Rightarrow> Some (Suc i)))"

text \<open>
  The loop \<^verbatim>\<open>for (const [step, elements] of Object.entries(newElementsByStep))\<close>: the
  first step that holds an element with the id gets that element replaced, and the loop
  breaks.
\<close>

fun replace_in_first_step ::
    "string \<Rightarrow> string list \<Rightarrow> TaskAction list list \<Rightarrow> TaskAction list list" where
  "replace_in_first_step actionId deps [] = []"
| "replace_in_first_step actionId deps (elements # rest) =
     (case findIndex (\<lambda>el. action_id el = actionId) elements of
        Some elementIndex \<Rightarrow>
          (take elementIndex elements
             @ [(elements ! elementIndex)\<lparr>dependsOn := Some deps\<rparr>]
             @ drop (Suc elementIndex) elements) # rest
      | None \<Rightarrow> elements # replace_in_first_step actionId deps rest)"

definition hypothetical_actionMap ::
    "string \<Rightarrow> string list \<Rightarrow> TaskAction list \<Rightarrow> (string \<times> TaskAction) list" where
  "hypothetical_actionMap actionId deps allActions =
     foldl (\<lambda>m action.
              if action_id action = actionId
              then AList.update (action_id action) (action\<lparr>dependsOn := Some deps\<rparr>) m
              else AList.update (action_id action) action m)
       [] allActions"

definition handleUpdateDependencies ::
    "string \<Rightarrow> string list \<Rightarrow> page_state \<Rightarrow> page_state" where
  "handleUpdateDependencies actionId deps st =
     (let allActions = concat (elementsByStep st);
          actionMap = hypothetical_actionMap actionId deps allActions
      in case checkForDependencyCycles dependsOn (map snd actionMap) of
           Inr u \<Rightarrow>
             st\<lparr>elementsByStep := replace_in_first_step actionId deps (elementsByStep st),
                showDependencyEditor := False\<rparr>
         | Inl e \<Rightarrow> st\<lparr>page_error := Some e\<rparr>)"

subsection \<open>\<^verbatim>\<open>DependencyEditor.handleSave\<close>\<close>

text \<open>
  The component of \<^verbatim>\<open>src/components/workflow/DependencyEditor.tsx\<close>. Its \<^verbatim>\<open>checkCycle\<close>
  returns \<^verbatim>\<open>true\<close> instead of throwing, looks at the recursion stack first, and is run
  from the edited action only. \<^verbatim>\<open>tempDeps.get(actionId) || []\<close> is \<open>tempDeps_get\<close>.
\<close>

definition tempDeps_of ::
    "TaskAction list \<Rightarrow> string \<Rightarrow> string list \<Rightarrow> (string \<times> string list) list" where
  "tempDeps_of actions currentActionId selectedDeps =
     foldl (\<lambda>m action.
              if action_id action = currentActionId
              then AList.update (action_id action) selectedDeps m
              else (case dependsOn action of
                      Some deps \<Rightarrow> AList.update (action_id action) deps m
                    | None \<Rightarrow> AList.update (action_id action) [] m))
       [] actions"

definition tempDeps_get :: "(string \<times> string list) list \<Rightarrow> string \<Rightarrow> string list" where
  "tempDeps_get tempDeps actionId =
     (case map_of tempDeps actionId of None \<Rightarrow> [] | Some dependencies \<Rightarrow> dependencies)"

function editor_checkCycle ::
    "(string \<times> string list) list \<Rightarrow> string \<Rightarrow> dfs_state \<Rightarrow> bool \<times> dfs_state"
  and editor_checkCycle_deps ::
    "(string \<times> string list) list \<Rightarrow> string \<Rightarrow> string list \<Rightarrow> dfs_state \<Rightarrow> bool \<times> dfs_state"
  where
  "editor_checkCycle tempDeps actionId s =
     (if actionId \<in> recursionStack s then (True, s)
      else if actionId \<in> visited s then (False, s)
      else (case editor_checkCycle_deps tempDeps actionId (tempDeps_get tempDeps actionId)
                   (enter actionId s) of
              (r, s') \<Rightarrow> if r then (True, s') else (False, leave actionId s')))"
| "editor_checkCycle_deps tempDeps actionId [] s = (False, s)"
| "editor_checkCycle_deps tempDeps actionId (depId # dependencies) s =
     (case editor_checkCycle tempDeps depId s of
        (r, s') \<Rightarrow>
          if r then (True, s')
          else editor_checkCycle_deps tempDeps actionId dependencies s')"
  by pat_completeness auto

definition tempDeps_nodes :: "(string \<times> string list) list \<Rightarrow> string set" where
  "tempDeps_nodes tempDeps = fst ` set tempDeps \<union> \<Union> (set ` snd ` set tempDeps)"

lemma finite_tempDeps_nodes [simp]: "finite (tempDeps_nodes m)"
  by (simp add: tempDeps_nodes_def)

lemma tempDeps_get_nodes: "set (tempDeps_get m a) \<subseteq> tempDeps_nodes m"
proof (cases "map_of m a")
  case None
  then show ?thesis by (simp add: tempDeps_get_def)
next
  case (Some ds)
  then have "(a, ds) \<in> set m" by (rule map_of_SomeD)
  then have "set ds \<in> set ` snd ` set m" by force
  then show ?thesis using Some by (auto simp: tempDeps_get_def tempDeps_nodes_def)
qed

lemma editor_checkCycle_visited_mono_dom:
  "editor_checkCycle_editor_checkCycle_deps_dom (Inl (m, a, s)) \<Longrightarrow>
     visited s \<subseteq> visited (snd (editor_checkCycle m a s))"
  "editor_checkCycle_editor_checkCycle_deps_dom (Inr (m, a, ds, s)) \<Longrightarrow>
     visited s \<subseteq> visited (snd (editor_checkCycle_deps m a ds s))"
proof (induct rule: editor_checkCycle_editor_checkCycle_deps.pinduct)
  case (1 tempDeps actionId s)
  from "1.hyps"(2) show ?case
    by (auto simp: editor_checkCycle.psimps[OF "1.hyps"(1)] split: prod.splits if_splits)
next
  case (2 tempDeps actionId s)
  then show ?case by (simp add: editor_checkCycle_deps.psimps)
next
  case (3 tempDeps actionId depId dependencies s)
  from "3.hyps"(2-) show ?case
    by (auto simp: editor_checkCycle_deps.psimps(2)[OF "3.hyps"(1)]
             split: prod.splits if_splits) blast+
qed

termination editor_checkCycle
proof (relation "inv_image (less_than <*lex*> less_than)
      (\<lambda>x. case x of
              Inl (m, a, s) \<Rightarrow> (card (insert a (tempDeps_nodes m) - visited s), 0)
            | Inr (m, a, ds, s) \<Rightarrow>
                (card ((tempDeps_nodes m \<union> set ds) - visited s), Suc (length ds)))",
       goal_cases)
  case 1
  show ?case by (intro wf_inv_image wf_lex_prod wf_less_than)
next
  case (2 tempDeps actionId s)
  have "(tempDeps_nodes tempDeps \<union> set (tempDeps_get tempDeps actionId))
           - insert actionId (visited s)
         \<subset> insert actionId (tempDeps_nodes tempDeps) - visited s"
    using 2(2) tempDeps_get_nodes[of tempDeps actionId] by auto
  then have "card ((tempDeps_nodes tempDeps \<union> set (tempDeps_get tempDeps actionId))
                     - insert actionId (visited s))
               < card (insert actionId (tempDeps_nodes tempDeps) - visited s)"
    by (intro psubset_card_mono) auto
  then show ?case by simp
next
  case (3 tempDeps actionId depId dependencies s)
  have "card (insert depId (tempDeps_nodes tempDeps) - visited s)
          \<le> card ((tempDeps_nodes tempDeps \<union> set (depId # dependencies)) - visited s)"
    by (intro card_mono) auto
  then show ?case by auto
next
  case (4 tempDeps actionId depId dependencies s x y)
  have "visited s \<subseteq> visited y"
    using editor_checkCycle_visited_mono_dom(1)[OF 4(3)] 4(1)
    by (metis snd_conv)
  then have "card ((tempDeps_nodes tempDeps \<union> set dependencies) - visited y)
          \<le> card ((tempDeps_nodes tempDeps \<union> set (depId # dependencies)) - visited s)"
    by (intro card_mono) auto
  then show ?case by auto
qed

declare editor_checkCycle.simps [simp del]

text \<open>
  \<^verbatim>\<open>handleSave\<close> either sets the error of the editor and returns, or calls the
  \<^verbatim>\<open>onUpdateDependencies\<close> callback it was given with the edited action and the selected
  dependencies.
\<close>

datatype save_outcome = SetError | OnUpdateDependencies string "string list"

definition handleSave :: "TaskAction list \<Rightarrow> string \<Rightarrow> string list \<Rightarrow> save_outcome" where
  "handleSave actions currentActionId selectedDeps =
     (let tempDeps = tempDeps_of actions currentActionId selectedDeps
      in if fst (editor_checkCycle tempDeps currentActionId
                   \<lparr>visited = {}, recursionStack = {}\<rparr>)
         then SetError
         else OnUpdateDependencies currentActionId selectedDeps)"

section \<open>Specification vocabulary\<close>

text \<open>
  The notions the specification is written in. The dependency relation of a collection
  relates the id of an action to every entry of its \<^verbatim>\<open>dependsOn\<close>; ids are strings.
  A collection is referentially intact when every entry is the id of one of its actions,
  and its ids are unique as the data model requires of an identifier.
\<close>

definition entries :: "string list option \<Rightarrow> string set" where
  "entries deps = (case deps of None \<Rightarrow> {} | Some ds \<Rightarrow> set ds)"

definition depends_rel :: "TaskAction list \<Rightarrow> (string \<times> string) set" where
  "depends_rel actions =
     {(x, y). \<exists>a \<in> set actions. action_id a = x \<and> y \<in> entries (dependsOn a)}"

definition has_cycle :: "TaskAction list \<Rightarrow> bool" where
  "has_cycle actions = (\<exists>x. (x, x) \<in> (depends_rel actions)\<^sup>+)"

definition has_dangling :: "TaskAction list \<Rightarrow> bool" where
  "has_dangling actions =
     (\<exists>a \<in> set actions. \<exists>d \<in> entries (dependsOn a). d \<notin> action_id ` set actions)"

definition unique_ids :: "TaskAction list \<Rightarrow> bool" where
  "unique_ids actions = distinct (map action_id actions)"

text \<open>
  An entry of \<^verbatim>\<open>dependsOn\<close> is completed when an action with that id is completed.
  \<open>stamp_of\<close> is the value \<^verbatim>\<open>completedBy\<close> receives from
  \<^verbatim>\<open>auth.currentUser?.uid\<close>.
\<close>

definition entry_completed :: "TaskAction list \<Rightarrow> string \<Rightarrow> bool" where
  "entry_completed actions d = (\<exists>b \<in> set actions. action_id b = d \<and> completed b)"

definition stamp_of :: "string option \<Rightarrow> string nullable" where
  "stamp_of uid = (case uid of None \<Rightarrow> Undefined | Some u \<Rightarrow> Value u)"

text \<open>Some completed action lists the given id in its \<^verbatim>\<open>dependsOn\<close>.\<close>

definition completed_dependent_exists :: "TaskAction list \<Rightarrow> string \<Rightarrow> bool" where
  "completed_dependent_exists actions actionId =
     (\<exists>b \<in> set actions. actionId \<in> entries (dependsOn b) \<and> completed b)"

text \<open>
  The classes of the availability evaluator next to \<^verbatim>\<open>completed\<close>: available is not
  completed with every dependency completed, blocked is not completed with some dependency,
  an action of the collection, that is not completed.
\<close>

definition class_available :: "TaskAction list \<Rightarrow> TaskAction \<Rightarrow> bool" where
  "class_available actions a =
     (\<not> completed a \<and> (\<forall>d \<in> entries (dependsOn a). entry_completed actions d))"

definition class_blocked :: "TaskAction list \<Rightarrow> TaskAction \<Rightarrow> bool" where
  "class_blocked actions a =
     (\<not> completed a
      \<and> (\<exists>d \<in> entries (dependsOn a). \<exists>b \<in> set actions. action_id b = d \<and> \<not> completed b))"

definition exactly_one :: "bool \<Rightarrow> bool \<Rightarrow> bool \<Rightarrow> bool" where
  "exactly_one p q r = ((p \<and> \<not> q \<and> \<not> r) \<or> (\<not> p \<and> q \<and> \<not> r) \<or> (\<not> p \<and> \<not> q \<and> r))"

text \<open>
  For the depth-first search: the relation the search follows, read off the
  \<^verbatim>\<open>actionMap\<close> it looks actions up in; the nodes it has finished, visited and no longer
  on the recursion stack; and the invariant that the stack is part of the visited set, that
  the finished nodes are closed under the relation and that none of them lies on a cycle.
\<close>

definition edges_rel ::
    "(TaskAction \<Rightarrow> string list option) \<Rightarrow> (string \<times> TaskAction) list \<Rightarrow> (string \<times> string) set" where
  "edges_rel edges actionMap =
     {(x, y). \<exists>action deps. map_of actionMap x = Some action \<and> edges action = Some deps
                \<and> y \<in> set deps}"

definition finished :: "dfs_state \<Rightarrow> string set" where
  "finished s = visited s - recursionStack s"

definition dfs_inv :: "(string \<times> string) set \<Rightarrow> dfs_state \<Rightarrow> bool" where
  "dfs_inv E s =
     (recursionStack s \<subseteq> visited s
      \<and> (\<forall>x \<in> finished s. \<forall>y. (x, y) \<in> E \<longrightarrow> y \<in> finished s)
      \<and> (\<forall>x \<in> finished s. (x, x) \<notin> E\<^sup>+))"

text \<open>
  \<open>setDependencies\<close> is the specification's operation of that name: the collection in
  which every action with the given id has the new \<^verbatim>\<open>dependsOn\<close> list and every other
  action is as before. It is the hypothetical collection the edits are checked against.
  \<open>tempDeps_rel\<close> is the relation the search of the dependency editor follows.
\<close>

definition setDependencies :: "TaskAction list \<Rightarrow> string \<Rightarrow> string list \<Rightarrow> TaskAction list" where
  "setDependencies actions actionId newDependsOn =
     map (\<lambda>a. if action_id a = actionId then a\<lparr>dependsOn := Some newDependsOn\<rparr> else a) actions"

definition tempDeps_rel :: "(string \<times> string list) list \<Rightarrow> (string \<times> string) set" where
  "tempDeps_rel tempDeps = {(x, y). y \<in> set (tempDeps_get tempDeps x)}"

section \<open>Example collections\<close>

text \<open>
  Concrete actions for the examples: an action of type \<^verbatim>\<open>text\<close> with an id, a
  \<^verbatim>\<open>dependsOn\<close> field and a completion flag, every other optional field absent; and a
  task in progress that holds a given collection.
\<close>

definition example_action :: "string \<Rightarrow> string list option \<Rightarrow> bool \<Rightarrow> TaskAction" where
  "example_action i deps c =
     \<lparr>action_id = i, title = i, atype = Text, completed = c, completedAt = Undefined,
      completedBy = Undefined, dependsOn = deps, nextActions = None, hasAttachments = None,
      data = None, attachments = None, payload = []\<rparr>"

definition example_task :: "TaskAction list \<Rightarrow> TaskSchema" where
  "example_task actions =
     \<lparr>status = InProgress, assignedTo = ''u1'', task_actions = actions, updatedAt = 0\<rparr>"

text \<open>The four actions of the specification's scenarios: B and C wait for A, D for both.\<close>

definition scenario1 :: "TaskAction list" where
  "scenario1 =
     [example_action ''A'' (Some []) False,
      example_action ''B'' (Some [''A'']) False,
      example_action ''C'' (Some [''A'']) False,
      example_action ''D'' (Some [''B'', ''C'']) False]"

text \<open>
  A single completed action of type \<^verbatim>\<open>text\<close> with no \<^verbatim>\<open>attachments\<close> field, and a
  single \<^verbatim>\<open>info\<close> action that takes attachments when it is completed.
\<close>

definition completed_text_action :: "TaskAction list" where
  "completed_text_action = [example_action ''A'' (Some []) True]"

definition info_with_upload :: "TaskAction list" where
  "info_with_upload =
     [(example_action ''I'' (Some []) False)\<lparr>atype := Info, hasAttachments := Some True\<rparr>]"

text \<open>The four actions after A has been completed.\<close>

definition scenario1_A_done :: "TaskAction list" where
  "scenario1_A_done =
     [example_action ''A'' (Some []) True,
      example_action ''B'' (Some [''A'']) False,
      example_action ''C'' (Some [''A'']) False,
      example_action ''D'' (Some [''B'', ''C'']) False]"

text \<open>An action Z that waits for two independent actions X and Y.\<close>

definition two_prerequisites :: "TaskAction list" where
  "two_prerequisites =
     [example_action ''X'' (Some []) False,
      example_action ''Y'' (Some []) False,
      example_action ''Z'' (Some [''X'', ''Y'']) False]"

text \<open>Two actions that depend on each other, and one action that names itself as its next action.\<close>

definition cyclic_pair :: "TaskAction list" where
  "cyclic_pair =
     [example_action ''A'' (Some [''B'']) False,
      example_action ''B'' (Some [''A'']) False]"

definition next_loop :: "TaskAction list" where
  "next_loop = [(example_action ''A'' (Some []) False)\<lparr>nextActions := Some [''A'']\<rparr>]"

text \<open>
  Two actions without edges listed before two actions that depend on each other.
\<close>

definition detached_cycle :: "TaskAction list" where
  "detached_cycle =
     [example_action ''C'' (Some []) False,
      example_action ''D'' None False,
      example_action ''A'' (Some [''B'']) False,
      example_action ''B'' (Some [''A'']) False]"

text \<open>A template page whose two steps hold the four actions of the scenarios.\<close>

definition example_page :: page_state where
  "example_page =
     \<lparr>elementsByStep =
        [[example_action ''A'' (Some []) False, example_action ''B'' (Some [''A'']) False],
         [example_action ''C'' (Some [''A'']) False,
          example_action ''D'' (Some [''B'', ''C'']) False]],
      page_error = None,
      showDependencyEditor = True\<rparr>"

section \<open>Availability with a dangling reference\<close>

lemma dependency_completed_dangling:
  assumes "d \<notin> action_id ` set actions"
  shows "\<not> dependency_completed actions d"
proof -
  have "find (\<lambda>a. action_id a = d) actions = None"
    using assms by (auto simp: find_None_iff)
  then show ?thesis by (simp add: dependency_completed_def)
qed

text \<open>
  Claim C10. An action that is not completed and has a \<^verbatim>\<open>dependsOn\<close> entry that is the id
  of no action of the task is not among the actions \<^verbatim>\<open>getAvailableActions\<close> returns and
  is among the \<^verbatim>\<open>blockedActions\<close> of \<^verbatim>\<open>getTaskWorkflowStats\<close>; neither method fails
  on it. The missing dependency counts as an incomplete one.
\<close>

theorem dangling_dependency_blocks:
  assumes "db taskId = Some taskData"
    and "a \<in> set (task_actions taskData)"
    and "\<not> completed a"
    and "d \<in> entries (dependsOn a)"
    and "d \<notin> action_id ` set (task_actions taskData)"
  shows "(\<exists>available. getAvailableActions db taskId = Inr available \<and> a \<notin> set available)
       \<and> (\<exists>stats. getTaskWorkflowStats db taskId = Inr stats
              \<and> a \<in> set (blockedActions stats))"
proof -
  obtain deps where deps: "dependsOn a = Some deps" "d \<in> set deps"
    using assms(4) by (auto simp: entries_def split: option.splits)
  have nd: "\<not> dependency_completed (task_actions taskData) d"
    using assms(5) by (rule dependency_completed_dangling)
  have nall: "\<not> list_all (dependency_completed (task_actions taskData)) deps"
    using nd deps(2) by (auto simp: list_all_iff)
  have ne: "deps \<noteq> []" using deps(2) by auto
  have 1: "\<not> available_filter (task_actions taskData) a"
    using deps nall ne by (simp add: available_filter_def assms(3))
  have 2: "blocked_filter (task_actions taskData) a"
    using deps nall ne by (simp add: blocked_filter_def assms(3))
  show ?thesis
    using 1 2 assms(1,2)
    by (simp add: getAvailableActions_def getTaskWorkflowStats_def getTaskById_def)
qed

theorem dangling_dependency_blocks_witness:
  "(let a = example_action ''A'' (Some [''ghost'']) False;
        db = [''t1'' \<mapsto> example_task [a]]
    in db ''t1'' = Some (example_task [a])
       \<and> a \<in> set (task_actions (example_task [a]))
       \<and> \<not> completed a
       \<and> ''ghost'' \<in> entries (dependsOn a)
       \<and> ''ghost'' \<notin> action_id ` set (task_actions (example_task [a]))
       \<and> (\<exists>available. getAvailableActions db ''t1'' = Inr available \<and> a \<notin> set available)
       \<and> (\<exists>stats. getTaskWorkflowStats db ''t1'' = Inr stats
              \<and> a \<in> set (blockedActions stats)))"
  using dangling_dependency_blocks
          [of "[''t1'' \<mapsto> example_task [example_action ''A'' (Some [''ghost'']) False]]"
              "''t1''" "example_task [example_action ''A'' (Some [''ghost'']) False]"
              "example_action ''A'' (Some [''ghost'']) False" "''ghost''"]
  by (simp add: example_action_def example_task_def entries_def Let_def)

section \<open>Completion state machine\<close>

lemma find_id_None: "find (\<lambda>a. action_id a = x) actions = None \<longleftrightarrow> x \<notin> action_id ` set actions"
  by (auto simp: find_None_iff)

lemma find_id_SomeD:
  "find (\<lambda>a. action_id a = x) actions = Some b \<Longrightarrow> b \<in> set actions \<and> action_id b = x"
  by (auto simp: find_Some_iff)

lemma dependency_completed_imp_entry:
  "dependency_completed actions d \<Longrightarrow> entry_completed actions d"
  by (auto simp: dependency_completed_def entry_completed_def split: option.splits
           dest: find_id_SomeD)

lemma unique_ids_same:
  "unique_ids actions \<Longrightarrow> a \<in> set actions \<Longrightarrow> b \<in> set actions \<Longrightarrow>
   action_id a = action_id b \<Longrightarrow> a = b"
  unfolding unique_ids_def by (meson distinct_map inj_onD)

lemma dependency_completed_unique:
  assumes "unique_ids actions"
  shows "dependency_completed actions d = entry_completed actions d"
proof
  assume "dependency_completed actions d"
  then show "entry_completed actions d" by (rule dependency_completed_imp_entry)
next
  assume "entry_completed actions d"
  then obtain b where b: "b \<in> set actions" "action_id b = d" "completed b"
    by (auto simp: entry_completed_def)
  then have "find (\<lambda>a. action_id a = d) actions \<noteq> None"
    by (auto simp: find_None_iff)
  then obtain b' where b': "find (\<lambda>a. action_id a = d) actions = Some b'" by auto
  then have "b' \<in> set actions" "action_id b' = d" by (auto dest: find_id_SomeD)
  then have "b' = b" using b assms by (auto intro: unique_ids_same)
  then show "dependency_completed actions d"
    using b' b(3) by (simp add: dependency_completed_def)
qed

lemma complete_action_fields:
  "completed (complete_action now uid cdata a)"
  "completedAt (complete_action now uid cdata a) = Value now"
  "completedBy (complete_action now uid cdata a) = stamp_of uid"
  "action_id (complete_action now uid cdata a) = action_id a"
  "dependsOn (complete_action now uid cdata a) = dependsOn a"
  by (simp_all add: complete_action_def Let_def stamp_of_def)

text \<open>
  Claim C4. For a task that exists, \<^verbatim>\<open>completeTaskAction\<close> throws when no action of
  the task has the id asked for, and throws when some \<^verbatim>\<open>dependsOn\<close> entry of the target
  (the first action with that id) is completed by no action of the task. Whenever it throws,
  the stored collection is the one it started from. When it succeeds, the task holds as
  many actions as before, every action with the id asked for is completed and stamped with
  the current time and user, and every other action is the same as before.
\<close>

theorem completeTaskAction_contract:
  assumes "db taskId = Some taskData"
  shows "(actionId \<notin> action_id ` set (task_actions taskData) \<longrightarrow>
            completeTaskAction now uid taskId actionId cdata db = (Inl ActionNotFound, db))
       \<and> (\<forall>target d.
            find (\<lambda>a. action_id a = actionId) (task_actions taskData) = Some target
            \<and> d \<in> entries (dependsOn target)
            \<and> \<not> entry_completed (task_actions taskData) d \<longrightarrow>
            completeTaskAction now uid taskId actionId cdata db
              = (Inl DependenciesNotCompleted, db))
       \<and> (\<forall>e db'. completeTaskAction now uid taskId actionId cdata db = (Inl e, db') \<longrightarrow>
            db' = db)
       \<and> (\<forall>out db'. completeTaskAction now uid taskId actionId cdata db = (Inr out, db') \<longrightarrow>
            (\<exists>taskData'. db' taskId = Some taskData'
               \<and> actionId \<in> action_id ` set (task_actions taskData)
               \<and> length (task_actions taskData') = length (task_actions taskData)
               \<and> (\<forall>i < length (task_actions taskData).
                     if action_id (task_actions taskData ! i) = actionId
                     then action_id (task_actions taskData' ! i) = actionId
                        \<and> completed (task_actions taskData' ! i)
                        \<and> completedAt (task_actions taskData' ! i) = Value now
                        \<and> completedBy (task_actions taskData' ! i) = stamp_of uid
                     else task_actions taskData' ! i = task_actions taskData ! i)))"
proof (intro conjI allI impI)
  assume "actionId \<notin> action_id ` set (task_actions taskData)"
  then have "find (\<lambda>a. action_id a = actionId) (task_actions taskData) = None"
    by (simp add: find_id_None)
  then show "completeTaskAction now uid taskId actionId cdata db = (Inl ActionNotFound, db)"
    using assms by (simp add: completeTaskAction_def)
next
  fix target d
  assume h: "find (\<lambda>a. action_id a = actionId) (task_actions taskData) = Some target
            \<and> d \<in> entries (dependsOn target)
            \<and> \<not> entry_completed (task_actions taskData) d"
  then obtain deps where deps: "dependsOn target = Some deps" "d \<in> set deps"
    by (auto simp: entries_def split: option.splits)
  have "\<not> dependency_completed (task_actions taskData) d"
    using h dependency_completed_imp_entry by blast
  then have "\<not> list_all (dependency_completed (task_actions taskData)) deps"
    using deps(2) by (auto simp: list_all_iff)
  moreover have "deps \<noteq> []" using deps(2) by auto
  ultimately show "completeTaskAction now uid taskId actionId cdata db
              = (Inl DependenciesNotCompleted, db)"
    using assms h deps(1) by (simp add: completeTaskAction_def)
next
  fix e db'
  assume "completeTaskAction now uid taskId actionId cdata db = (Inl e, db')"
  then show "db' = db"
    using assms
    by (auto simp: completeTaskAction_def Let_def split: option.splits if_splits)
next
  fix out db'
  assume r: "completeTaskAction now uid taskId actionId cdata db = (Inr out, db')"
  let ?new = "map (\<lambda>action. if action_id action = actionId
                              then complete_action now uid cdata action else action)
                (task_actions taskData)"
  from r assms obtain target where
    t: "find (\<lambda>a. action_id a = actionId) (task_actions taskData) = Some target"
    by (auto simp: completeTaskAction_def Let_def split: option.splits if_splits)
  from r assms t obtain taskData' where
    d: "db' taskId = Some taskData'" "task_actions taskData' = ?new"
    by (auto simp: completeTaskAction_def Let_def split: option.splits if_splits)
  have "actionId \<in> action_id ` set (task_actions taskData)"
    using t by (auto dest: find_id_SomeD)
  moreover have "\<forall>i < length (task_actions taskData).
                     if action_id (task_actions taskData ! i) = actionId
                     then action_id (task_actions taskData' ! i) = actionId
                        \<and> completed (task_actions taskData' ! i)
                        \<and> completedAt (task_actions taskData' ! i) = Value now
                        \<and> completedBy (task_actions taskData' ! i) = stamp_of uid
                     else task_actions taskData' ! i = task_actions taskData ! i"
    by (simp add: d(2) complete_action_fields)
  ultimately show "\<exists>taskData'. db' taskId = Some taskData'
               \<and> actionId \<in> action_id ` set (task_actions taskData)
               \<and> length (task_actions taskData') = length (task_actions taskData)
               \<and> (\<forall>i < length (task_actions taskData).
                     if action_id (task_actions taskData ! i) = actionId
                     then action_id (task_actions taskData' ! i) = actionId
                        \<and> completed (task_actions taskData' ! i)
                        \<and> completedAt (task_actions taskData' ! i) = Value now
                        \<and> completedBy (task_actions taskData' ! i) = stamp_of uid
                     else task_actions taskData' ! i = task_actions taskData ! i)"
    using d by auto
qed

theorem completeTaskAction_contract_witness:
  "(let db = [''t1'' \<mapsto> example_task scenario1]
    in db ''t1'' = Some (example_task scenario1)
     \<and> ''Z'' \<notin> action_id ` set (task_actions (example_task scenario1))
     \<and> completeTaskAction 5 (Some ''u1'') ''t1'' ''Z'' None db = (Inl ActionNotFound, db)
     \<and> find (\<lambda>a. action_id a = ''B'') (task_actions (example_task scenario1))
           = Some (example_action ''B'' (Some [''A'']) False)
     \<and> ''A'' \<in> entries (dependsOn (example_action ''B'' (Some [''A'']) False))
     \<and> \<not> entry_completed (task_actions (example_task scenario1)) ''A''
     \<and> completeTaskAction 5 (Some ''u1'') ''t1'' ''B'' None db
           = (Inl DependenciesNotCompleted, db)
     \<and> (\<exists>out db' taskData'.
           completeTaskAction 5 (Some ''u1'') ''t1'' ''A'' None db = (Inr out, db')
           \<and> db' ''t1'' = Some taskData'
           \<and> completed (task_actions taskData' ! 0)
           \<and> completedAt (task_actions taskData' ! 0) = Value 5
           \<and> completedBy (task_actions taskData' ! 0) = Value ''u1''
           \<and> task_actions taskData' ! 1 = example_action ''B'' (Some [''A'']) False))"
  using completeTaskAction_contract
          [of "[''t1'' \<mapsto> example_task scenario1]" "''t1''" "example_task scenario1"
              "''Z''" 5 "Some ''u1''" None]
        completeTaskAction_contract
          [of "[''t1'' \<mapsto> example_task scenario1]" "''t1''" "example_task scenario1"
              "''B''" 5 "Some ''u1''" None]
        completeTaskAction_contract
          [of "[''t1'' \<mapsto> example_task scenario1]" "''t1''" "example_task scenario1"
              "''A''" 5 "Some ''u1''" None]
  by (simp add: scenario1_def example_task_def example_action_def entries_def
        entry_completed_def completeTaskAction_def dependency_completed_def
        complete_action_def stamp_of_def updateDoc_rejects_def Let_def)


lemma uncomplete_action_fields:
  "\<not> completed (uncomplete_action a)"
  "completedAt (uncomplete_action a) = Null"
  "completedBy (uncomplete_action a) = Null"
  "attachments (uncomplete_action a) =
     (if atype a = Info \<and> hasAttachments a = Some True then Some [] else attachments a)"
  "action_id (uncomplete_action a) = action_id a"
  "dependsOn (uncomplete_action a) = dependsOn a"
  "data (uncomplete_action a) = data a"
  by (simp_all add: uncomplete_action_def)

lemma completed_dependents_filter:
  "length (filter (\<lambda>action. (case dependsOn action of None \<Rightarrow> False
                               | Some deps \<Rightarrow> actionId \<in> set deps) \<and> completed action)
             actions) > 0
   \<longleftrightarrow> completed_dependent_exists actions actionId"
  by (auto simp: completed_dependent_exists_def entries_def filter_empty_conv
           split: option.splits)

lemma updateDoc_rejects_map:
  assumes "\<And>a. action_id (f a) = action_id a"
  shows "updateDoc_rejects P c (map (\<lambda>a. if action_id a = c then f a else a) xs)
           \<longleftrightarrow> (\<exists>a \<in> set xs. action_id a = c \<and> P (f a))"
  unfolding updateDoc_rejects_def
  by (induction xs) (simp_all add: assms)

lemma uncomplete_action_attachments_None:
  "attachments (uncomplete_action a) = None
     \<longleftrightarrow> attachments a = None \<and> \<not> (atype a = Info \<and> hasAttachments a = Some True)"
proof (cases "atype a = Info \<and> hasAttachments a = Some True")
  case True
  then show ?thesis by (simp add: uncomplete_action_def)
next
  case False
  then have "attachments (uncomplete_action a) = attachments a"
    by (auto simp: uncomplete_action_def)
  then show ?thesis using False by simp
qed

lemma uncompleteTaskAction_fails_iff:
  assumes "db taskId = Some taskData"
  shows "(\<exists>e. fst (uncompleteTaskAction now taskId actionId db) = Inl e) \<longleftrightarrow>
           actionId \<notin> action_id ` set (task_actions taskData)
           \<or> completed_dependent_exists (task_actions taskData) actionId
           \<or> (\<exists>a \<in> set (task_actions taskData).
                 action_id a = actionId \<and> attachments a = None
                 \<and> \<not> (atype a = Info \<and> hasAttachments a = Some True))"
proof (cases "find (\<lambda>a. action_id a = actionId) (task_actions taskData)")
  case None
  then have "actionId \<notin> action_id ` set (task_actions taskData)"
    by (simp add: find_id_None)
  then show ?thesis
    using assms None by (simp add: uncompleteTaskAction_def)
next
  case (Some target)
  then have present: "actionId \<in> action_id ` set (task_actions taskData)"
    by (auto dest: find_id_SomeD)
  have rej: "updateDoc_rejects (\<lambda>action. attachments action = None) actionId
               (map (\<lambda>action. if action_id action = actionId
                                then uncomplete_action action else action)
                  (task_actions taskData))
             \<longleftrightarrow> (\<exists>a \<in> set (task_actions taskData).
                    action_id a = actionId \<and> attachments a = None
                    \<and> \<not> (atype a = Info \<and> hasAttachments a = Some True))"
    unfolding uncomplete_action_attachments_None[symmetric]
    by (rule updateDoc_rejects_map) (simp add: uncomplete_action_def)
  show ?thesis
  proof (cases "completed_dependent_exists (task_actions taskData) actionId")
    case True
    then show ?thesis
      using assms Some completed_dependents_filter[of actionId "task_actions taskData"]
      by (simp add: uncompleteTaskAction_def Let_def)
  next
    case False
    then show ?thesis
      using assms Some present rej
        completed_dependents_filter[of actionId "task_actions taskData"]
      by (simp add: uncompleteTaskAction_def Let_def)
  qed
qed

text \<open>
  Claim C5. The code at the inputs that separate it from the claim. A task holds one
  completed action A of type \<^verbatim>\<open>text\<close> without an \<^verbatim>\<open>attachments\<close> field: A is present
  and no completed action depends on it, and \<^verbatim>\<open>uncompleteTaskAction\<close> throws, because the
  object it builds for A carries \<^verbatim>\<open>attachments: undefined\<close> and \<^verbatim>\<open>updateDoc\<close> rejects
  it; the stored collection stays as it was, A still completed. A task holds one
  \<^verbatim>\<open>info\<close> action I with \<^verbatim>\<open>hasAttachments\<close>: completing it with the attachment list
  \<open>[f1]\<close> stores that list in \<^verbatim>\<open>data.fileURLs\<close>, and uncompleting it succeeds, empties
  the field \<^verbatim>\<open>attachments\<close> and leaves \<^verbatim>\<open>data.fileURLs\<close> at \<open>[f1]\<close>.
\<close>

theorem uncompleteTaskAction_rejected_write_and_kept_fileURLs:
  "''A'' \<in> action_id ` set (task_actions (example_task completed_text_action))
   \<and> \<not> completed_dependent_exists (task_actions (example_task completed_text_action)) ''A''
   \<and> uncompleteTaskAction 7 ''t1'' ''A'' [''t1'' \<mapsto> example_task completed_text_action]
       = (Inl UnsupportedFieldValue, [''t1'' \<mapsto> example_task completed_text_action])
   \<and> (\<exists>db1 task1 db2 task2.
         completeTaskAction 5 (Some ''u1'') ''t1'' ''I''
             (Some \<lparr>data_attachments = Some [''f1'']\<rparr>)
             [''t1'' \<mapsto> example_task info_with_upload]
           = (Inr [], db1)
         \<and> db1 ''t1'' = Some task1
         \<and> data (task_actions task1 ! 0) = Some \<lparr>fileURLs = Some [''f1''], steps = None\<rparr>
         \<and> uncompleteTaskAction 7 ''t1'' ''I'' db1 = (Inr (), db2)
         \<and> db2 ''t1'' = Some task2
         \<and> \<not> completed (task_actions task2 ! 0)
         \<and> attachments (task_actions task2 ! 0) = Some []
         \<and> data (task_actions task2 ! 0) = Some \<lparr>fileURLs = Some [''f1''], steps = None\<rparr>)"
proof -
  have 1: "''A'' \<in> action_id ` set (task_actions (example_task completed_text_action))"
    by (simp add: example_task_def completed_text_action_def example_action_def)
  have 2: "\<not> completed_dependent_exists (task_actions (example_task completed_text_action))
             ''A''"
    by (simp add: completed_dependent_exists_def example_task_def completed_text_action_def
          example_action_def entries_def)
  have 3: "uncompleteTaskAction 7 ''t1'' ''A'' [''t1'' \<mapsto> example_task completed_text_action]
       = (Inl UnsupportedFieldValue, [''t1'' \<mapsto> example_task completed_text_action])"
    by (simp add: uncompleteTaskAction_def example_task_def completed_text_action_def
          example_action_def uncomplete_action_def updateDoc_rejects_def Let_def)
  have 4: "\<exists>db1 task1 db2 task2.
         completeTaskAction 5 (Some ''u1'') ''t1'' ''I''
             (Some \<lparr>data_attachments = Some [''f1'']\<rparr>)
             [''t1'' \<mapsto> example_task info_with_upload]
           = (Inr [], db1)
         \<and> db1 ''t1'' = Some task1
         \<and> data (task_actions task1 ! 0) = Some \<lparr>fileURLs = Some [''f1''], steps = None\<rparr>
         \<and> uncompleteTaskAction 7 ''t1'' ''I'' db1 = (Inr (), db2)
         \<and> db2 ''t1'' = Some task2
         \<and> \<not> completed (task_actions task2 ! 0)
         \<and> attachments (task_actions task2 ! 0) = Some []
         \<and> data (task_actions task2 ! 0) = Some \<lparr>fileURLs = Some [''f1''], steps = None\<rparr>"
    by (simp add: completeTaskAction_def uncompleteTaskAction_def example_task_def
          info_with_upload_def example_action_def complete_action_def uncomplete_action_def
          updateDoc_rejects_def data_or_empty_def dependency_completed_def Let_def)
  show ?thesis by (rule conjI[OF 1 conjI[OF 2 conjI[OF 3 4]]])
qed

section \<open>Availability classes\<close>

lemma available_filter_class:
  assumes "unique_ids actions"
  shows "available_filter actions a = class_available actions a"
  using dependency_completed_unique[OF assms]
  by (auto simp: available_filter_def class_available_def entries_def list_all_iff
           split: option.splits)

lemma blocked_filter_class:
  assumes "unique_ids actions" and "\<not> has_dangling actions" and "a \<in> set actions"
  shows "blocked_filter actions a = class_blocked actions a"
proof -
  have *: "\<And>d. d \<in> entries (dependsOn a) \<Longrightarrow>
             (\<not> entry_completed actions d) = (\<exists>b \<in> set actions. action_id b = d \<and> \<not> completed b)"
  proof -
    fix d assume d: "d \<in> entries (dependsOn a)"
    then have "d \<in> action_id ` set actions"
      using assms(2,3) unfolding has_dangling_def by blast
    then obtain b where b: "b \<in> set actions" "action_id b = d"
      by auto
    show "(\<not> entry_completed actions d) = (\<exists>b \<in> set actions. action_id b = d \<and> \<not> completed b)"
    proof
      assume "\<not> entry_completed actions d"
      then have "\<not> completed b" using b by (auto simp: entry_completed_def)
      then show "\<exists>b \<in> set actions. action_id b = d \<and> \<not> completed b" using b by blast
    next
      assume "\<exists>b \<in> set actions. action_id b = d \<and> \<not> completed b"
      then obtain b' where b': "b' \<in> set actions" "action_id b' = d" "\<not> completed b'" by blast
      show "\<not> entry_completed actions d"
      proof
        assume "entry_completed actions d"
        then obtain c where c: "c \<in> set actions" "action_id c = d" "completed c"
          by (auto simp: entry_completed_def)
        then have "c = b'" using b' assms(1) by (auto intro: unique_ids_same)
        then show False using c b' by simp
      qed
    qed
  qed
  have "blocked_filter actions a
          = (\<not> completed a \<and> (\<exists>d \<in> entries (dependsOn a). \<not> entry_completed actions d))"
    using dependency_completed_unique[OF assms(1)]
    by (auto simp: blocked_filter_def entries_def list_all_iff split: option.splits)
  then show ?thesis
    using * by (auto simp: class_blocked_def)
qed

text \<open>
  Claim C3. In a task whose actions have unique ids and whose \<^verbatim>\<open>dependsOn\<close> entries all
  are ids of its actions, every action is in exactly one of the classes completed,
  available and blocked; \<^verbatim>\<open>getAvailableActions\<close> returns the available actions and
  \<^verbatim>\<open>blockedActions\<close> of \<^verbatim>\<open>getTaskWorkflowStats\<close> is the blocked ones, both in the
  order of the collection.
\<close>

theorem availability_classes:
  assumes "db taskId = Some taskData"
    and "unique_ids (task_actions taskData)"
    and "\<not> has_dangling (task_actions taskData)"
  shows "(\<forall>a \<in> set (task_actions taskData).
            exactly_one (completed a) (class_available (task_actions taskData) a)
              (class_blocked (task_actions taskData) a))
       \<and> getAvailableActions db taskId
           = Inr (filter (class_available (task_actions taskData)) (task_actions taskData))
       \<and> (\<exists>stats. getTaskWorkflowStats db taskId = Inr stats
            \<and> blockedActions stats
                = filter (class_blocked (task_actions taskData)) (task_actions taskData))"
proof (intro conjI ballI)
  fix a assume a: "a \<in> set (task_actions taskData)"
  have b: "blocked_filter (task_actions taskData) a = class_blocked (task_actions taskData) a"
    using assms(2,3) a by (rule blocked_filter_class)
  have v: "available_filter (task_actions taskData) a = class_available (task_actions taskData) a"
    using assms(2) by (rule available_filter_class)
  have "exactly_one (completed a) (available_filter (task_actions taskData) a)
          (blocked_filter (task_actions taskData) a)"
    by (auto simp: exactly_one_def available_filter_def blocked_filter_def split: option.splits)
  then show "exactly_one (completed a) (class_available (task_actions taskData) a)
              (class_blocked (task_actions taskData) a)"
    by (simp add: b v)
next
  have "filter (available_filter (task_actions taskData)) (task_actions taskData)
          = filter (class_available (task_actions taskData)) (task_actions taskData)"
    using available_filter_class[OF assms(2)] by (intro filter_cong) auto
  then show "getAvailableActions db taskId
           = Inr (filter (class_available (task_actions taskData)) (task_actions taskData))"
    using assms(1) by (simp add: getAvailableActions_def getTaskById_def)
next
  have "filter (blocked_filter (task_actions taskData)) (task_actions taskData)
          = filter (class_blocked (task_actions taskData)) (task_actions taskData)"
    using blocked_filter_class[OF assms(2,3)] by (intro filter_cong) auto
  then show "\<exists>stats. getTaskWorkflowStats db taskId = Inr stats
            \<and> blockedActions stats
                = filter (class_blocked (task_actions taskData)) (task_actions taskData)"
    using assms(1)
    by (simp add: getTaskWorkflowStats_def getAvailableActions_def getTaskById_def)
qed

theorem availability_classes_witness:
  "(let db = [''t1'' \<mapsto> example_task scenario1_A_done]
    in db ''t1'' = Some (example_task scenario1_A_done)
     \<and> unique_ids (task_actions (example_task scenario1_A_done))
     \<and> \<not> has_dangling (task_actions (example_task scenario1_A_done))
     \<and> example_action ''D'' (Some [''B'', ''C'']) False
          \<in> set (task_actions (example_task scenario1_A_done))
     \<and> exactly_one (completed (example_action ''D'' (Some [''B'', ''C'']) False))
          (class_available (task_actions (example_task scenario1_A_done))
             (example_action ''D'' (Some [''B'', ''C'']) False))
          (class_blocked (task_actions (example_task scenario1_A_done))
             (example_action ''D'' (Some [''B'', ''C'']) False))
     \<and> getAvailableActions db ''t1''
          = Inr [example_action ''B'' (Some [''A'']) False,
                 example_action ''C'' (Some [''A'']) False]
     \<and> (\<exists>stats. getTaskWorkflowStats db ''t1'' = Inr stats
           \<and> blockedActions stats = [example_action ''D'' (Some [''B'', ''C'']) False]))"
  using availability_classes
          [of "[''t1'' \<mapsto> example_task scenario1_A_done]" "''t1''"
              "example_task scenario1_A_done"]
  by (simp add: scenario1_A_done_def example_task_def example_action_def entries_def
        unique_ids_def has_dangling_def class_available_def class_blocked_def
        entry_completed_def exactly_one_def Let_def)


section \<open>Actions reported after a completion\<close>

text \<open>
  Claim C9. The code at the input that separates it from the claim: X and Y have no
  dependencies, Z depends on both, nothing is completed, and X gets completed. The list
  \<^verbatim>\<open>dependentActions\<close> that the notification reports as newly available is \<open>[Z]\<close>,
  while the available actions of the task after the call are \<open>[Y]\<close>: Z still waits for Y.
\<close>

theorem completeTaskAction_reports_blocked_dependent:
  "\<exists>db'. completeTaskAction 5 (Some ''u1'') ''t1'' ''X'' None
            [''t1'' \<mapsto> example_task two_prerequisites]
          = (Inr [example_action ''Z'' (Some [''X'', ''Y'']) False], db')
       \<and> getAvailableActions db' ''t1'' = Inr [example_action ''Y'' (Some []) False]"
  by (simp add: completeTaskAction_def two_prerequisites_def example_task_def
        example_action_def dependency_completed_def complete_action_def Let_def
        updateDoc_rejects_def getAvailableActions_def getTaskById_def available_filter_def)

section \<open>Template validation\<close>

lemma has_cycle_cyclic_pair: "has_cycle cyclic_pair"
proof -
  have "(''A'', ''B'') \<in> depends_rel cyclic_pair" "(''B'', ''A'') \<in> depends_rel cyclic_pair"
    by (simp_all add: depends_rel_def cyclic_pair_def example_action_def entries_def)
  then have "(''A'', ''A'') \<in> (depends_rel cyclic_pair)\<^sup>+"
    by (rule trancl_into_trancl2[OF _ r_into_trancl])
  then show ?thesis unfolding has_cycle_def by blast
qed

lemma depends_rel_next_loop: "depends_rel next_loop = {}"
  by (auto simp: depends_rel_def next_loop_def example_action_def entries_def)

text \<open>
  Claim C8. The code at the inputs that separate it from the claim. The collection of two
  actions that depend on each other has a cycle, and
  \<^verbatim>\<open>ActionTemplateService.validateActionDependencies\<close> accepts it, so that
  \<^verbatim>\<open>createActionTemplate\<close> stores the template, where the validation of the task service
  raises the cycle error. The collection of one action without
  dependencies that lists itself in \<^verbatim>\<open>nextActions\<close> has neither a cycle nor a dangling
  entry in \<^verbatim>\<open>dependsOn\<close>, and the template validation raises a cycle error on it.
\<close>

theorem template_validation_misses_dependsOn_cycle:
  "has_cycle cyclic_pair
   \<and> ActionTemplateService_validateActionDependencies cyclic_pair = Inr ()
   \<and> createActionTemplate ''t1''
         \<lparr>template_title = ''T'', template_elements = cyclic_pair\<rparr> Map.empty
       = (Inr \<lparr>template_title = ''T'', template_elements = cyclic_pair\<rparr>,
          [''t1'' \<mapsto> \<lparr>template_title = ''T'', template_elements = cyclic_pair\<rparr>])
   \<and> TaskService_validateActionDependencies cyclic_pair = Inl (DependencyCycle ''B'' ''A'')
   \<and> \<not> has_cycle next_loop \<and> \<not> has_dangling next_loop
   \<and> ActionTemplateService_validateActionDependencies next_loop
        = Inl (DependencyCycle ''A'' ''A'')"
proof -
  have 1: "ActionTemplateService_validateActionDependencies cyclic_pair = Inr ()"
    by (simp add: cyclic_pair_def ActionTemplateService_validateActionDependencies_def
          example_action_def checkForDependencyCycles_def actionMap_of_def checkCycle.simps)
  have 2: "TaskService_validateActionDependencies cyclic_pair
             = Inl (DependencyCycle ''B'' ''A'')"
    by (simp add: cyclic_pair_def TaskService_validateActionDependencies_def
          example_action_def checkForDependencyCycles_def actionMap_of_def checkCycle.simps)
  have 3: "\<not> has_cycle next_loop"
    by (simp add: has_cycle_def depends_rel_next_loop)
  have 4: "\<not> has_dangling next_loop"
    by (simp add: has_dangling_def next_loop_def example_action_def entries_def)
  have 5: "ActionTemplateService_validateActionDependencies next_loop
        = Inl (DependencyCycle ''A'' ''A'')"
    by (simp add: next_loop_def ActionTemplateService_validateActionDependencies_def
          example_action_def checkForDependencyCycles_def actionMap_of_def checkCycle.simps)
  have 6: "createActionTemplate ''t1''
         \<lparr>template_title = ''T'', template_elements = cyclic_pair\<rparr> Map.empty
       = (Inr \<lparr>template_title = ''T'', template_elements = cyclic_pair\<rparr>,
          [''t1'' \<mapsto> \<lparr>template_title = ''T'', template_elements = cyclic_pair\<rparr>])"
    by (simp add: createActionTemplate_def 1)
  show ?thesis using has_cycle_cyclic_pair 1 2 3 4 5 6 by (intro conjI)
qed


section \<open>Correctness of the cycle detection\<close>

lemma checkCycle_frame:
  "recursionStack s \<subseteq> visited s \<longrightarrow>
     (\<forall>r s'. checkCycle e m a s = Inr (r, s') \<longrightarrow>
        \<not> r \<and> recursionStack s' = recursionStack s \<and> visited s \<subseteq> visited s'
        \<and> a \<in> visited s')"
  "recursionStack s \<subseteq> visited s \<longrightarrow>
     (\<forall>r s'. checkCycle_deps e m a ds s = Inr (r, s') \<longrightarrow>
        \<not> r \<and> recursionStack s' = recursionStack s \<and> visited s \<subseteq> visited s')"
proof (induction e m a s and e m a ds s rule: checkCycle_checkCycle_deps.induct)
  case (1 edges actionMap actionId s)
  show ?case
  proof (intro impI allI)
    fix r s'
    assume sub: "recursionStack s \<subseteq> visited s"
      and res: "checkCycle edges actionMap actionId s = Inr (r, s')"
    show "\<not> r \<and> recursionStack s' = recursionStack s \<and> visited s \<subseteq> visited s'
        \<and> actionId \<in> visited s'"
    proof (cases "actionId \<in> visited s")
      case True
      with res show ?thesis by (simp add: checkCycle.simps)
    next
      case nv: False
      then have ns: "actionId \<notin> recursionStack s" using sub by blast
      show ?thesis
      proof (cases "map_of actionMap actionId")
        case None
        with res nv ns show ?thesis by (auto simp: checkCycle.simps)
      next
        case (Some action)
        show ?thesis
        proof (cases "edges action")
          case None
          with res nv ns Some show ?thesis by (auto simp: checkCycle.simps)
        next
          case (Some deps)
          note act = \<open>map_of actionMap actionId = Some action\<close>
          from res nv act Some obtain r2 s2 where
            inner: "checkCycle_deps edges actionMap actionId deps (enter actionId s) = Inr (r2, s2)"
            and out: "(r, s') = (if r2 then (True, s2) else (False, leave actionId s2))"
            by (auto simp: checkCycle.simps split: sum.splits prod.splits if_splits)
          have "recursionStack (enter actionId s) \<subseteq> visited (enter actionId s)"
            using sub by auto
          with "1.IH"[OF nv act Some] inner
          have f: "\<not> r2" "recursionStack s2 = recursionStack (enter actionId s)"
              "visited (enter actionId s) \<subseteq> visited s2"
            by blast+
          from out f(1) have "r = False" "s' = leave actionId s2" by simp_all
          then show ?thesis using f ns by auto
        qed
      qed
    qed
  qed
next
  case (2 edges actionMap actionId s)
  show ?case by simp
next
  case (3 edges actionMap actionId depId deps s)
  show ?case
  proof (intro impI allI)
    fix r s'
    assume sub: "recursionStack s \<subseteq> visited s"
      and res: "checkCycle_deps edges actionMap actionId (depId # deps) s = Inr (r, s')"
    show "\<not> r \<and> recursionStack s' = recursionStack s \<and> visited s \<subseteq> visited s'"
    proof (cases "depId \<in> visited s")
      case True
      with res have ns: "depId \<notin> recursionStack s"
        and rest: "checkCycle_deps edges actionMap actionId deps s = Inr (r, s')"
        by (auto split: if_splits)
      from "3.IH"(3) True ns sub rest show ?thesis by blast
    next
      case nv: False
      from res nv obtain r1 s1 where
        c1: "checkCycle edges actionMap depId s = Inr (r1, s1)"
        by (auto split: sum.splits prod.splits if_splits)
      from "3.IH"(1)[OF nv] sub c1
      have f1: "\<not> r1" "recursionStack s1 = recursionStack s" "visited s \<subseteq> visited s1"
        by blast+
      from res nv c1 f1(1) have ns1: "depId \<notin> recursionStack s1"
        and rest: "checkCycle_deps edges actionMap actionId deps s1 = Inr (r, s')"
        by (auto split: if_splits)
      have sub1: "recursionStack s1 \<subseteq> visited s1" using f1 sub by auto
      from "3.IH"(2)[OF nv c1 refl f1(1) ns1] sub1 rest
      have "\<not> r \<and> recursionStack s' = recursionStack s1 \<and> visited s1 \<subseteq> visited s'"
        by blast
      then show ?thesis using f1 by auto
    qed
  qed
qed

lemma closed_rtrancl:
  assumes "\<forall>x \<in> B. \<forall>y. (x, y) \<in> E \<longrightarrow> y \<in> B"
    and "(x, y) \<in> E\<^sup>*" and "x \<in> B"
  shows "y \<in> B"
  using assms(2,3,1) by (induction rule: rtrancl_induct) blast+

lemma dfs_inv_finish:
  assumes inv: "dfs_inv E s2"
    and a: "a \<in> visited s2" "a \<in> recursionStack s2"
    and succ: "\<forall>y. (a, y) \<in> E \<longrightarrow> y \<in> finished s2"
  shows "dfs_inv E (leave a s2)" and "finished (leave a s2) = insert a (finished s2)"
proof -
  show fin: "finished (leave a s2) = insert a (finished s2)"
    using a by (auto simp: finished_def)
  have closed: "\<forall>x \<in> finished s2. \<forall>y. (x, y) \<in> E \<longrightarrow> y \<in> finished s2"
    using inv by (simp add: dfs_inv_def)
  have "(a, a) \<notin> E\<^sup>+"
  proof
    assume "(a, a) \<in> E\<^sup>+"
    then obtain y where y: "(a, y) \<in> E" "(y, a) \<in> E\<^sup>*"
      by (meson tranclD)
    then have "y \<in> finished s2" using succ by blast
    then have "a \<in> finished s2" using closed_rtrancl[OF closed y(2)] by blast
    then show False using a(2) by (simp add: finished_def)
  qed
  then show "dfs_inv E (leave a s2)"
    using inv succ unfolding dfs_inv_def fin by auto
qed

lemma dfs_inv_enter:
  assumes "dfs_inv E s" and "a \<notin> visited s"
  shows "dfs_inv E (enter a s)" and "finished (enter a s) = finished s"
proof -
  show fin: "finished (enter a s) = finished s"
    using assms(2) by (auto simp: finished_def)
  show "dfs_inv E (enter a s)"
    using assms(1) unfolding dfs_inv_def fin by auto
qed

lemma edges_rel_succ:
  "map_of m a = Some action \<Longrightarrow> edges action = Some deps \<Longrightarrow>
     (a, y) \<in> edges_rel edges m \<longleftrightarrow> y \<in> set deps"
  by (auto simp: edges_rel_def)

lemma edges_rel_no_succ:
  "map_of m a = None \<or> (\<exists>action. map_of m a = Some action \<and> edges action = None) \<Longrightarrow>
     (a, y) \<notin> edges_rel edges m"
  by (auto simp: edges_rel_def)

lemma checkCycle_inv:
  "dfs_inv (edges_rel e m) s \<longrightarrow>
     (\<forall>r s'. checkCycle e m a s = Inr (r, s') \<longrightarrow>
        dfs_inv (edges_rel e m) s' \<and> finished s \<subseteq> finished s'
        \<and> (a \<notin> recursionStack s \<longrightarrow> a \<in> finished s'))"
  "dfs_inv (edges_rel e m) s \<longrightarrow>
     (\<forall>r s'. checkCycle_deps e m a ds s = Inr (r, s') \<longrightarrow>
        dfs_inv (edges_rel e m) s' \<and> finished s \<subseteq> finished s' \<and> set ds \<subseteq> finished s')"
proof (induction e m a s and e m a ds s rule: checkCycle_checkCycle_deps.induct)
  case (1 edges actionMap actionId s)
  let ?E = "edges_rel edges actionMap"
  show ?case
  proof (intro impI allI)
    fix r s'
    assume inv: "dfs_inv ?E s"
      and res: "checkCycle edges actionMap actionId s = Inr (r, s')"
    have sub: "recursionStack s \<subseteq> visited s" using inv by (simp add: dfs_inv_def)
    show "dfs_inv ?E s' \<and> finished s \<subseteq> finished s'
        \<and> (actionId \<notin> recursionStack s \<longrightarrow> actionId \<in> finished s')"
    proof (cases "actionId \<in> visited s")
      case True
      with res have "s' = s" by (simp add: checkCycle.simps)
      then show ?thesis using inv True by (auto simp: finished_def)
    next
      case nv: False
      note inv1 = dfs_inv_enter[OF inv nv]
      have in1: "actionId \<in> visited (enter actionId s)"
        "actionId \<in> recursionStack (enter actionId s)" by simp_all
      have leaf: "(\<forall>y. (actionId, y) \<notin> ?E) \<Longrightarrow> s' = leave actionId (enter actionId s) \<Longrightarrow> ?thesis"
      proof -
        assume no: "\<forall>y. (actionId, y) \<notin> ?E" and s': "s' = leave actionId (enter actionId s)"
        have "\<forall>y. (actionId, y) \<in> ?E \<longrightarrow> y \<in> finished (enter actionId s)"
          using no by blast
        from dfs_inv_finish[OF inv1(1) in1 this] show ?thesis
          unfolding s' inv1(2) by auto
      qed
      show ?thesis
      proof (cases "map_of actionMap actionId")
        case None
        then have "\<forall>y. (actionId, y) \<notin> ?E" using edges_rel_no_succ by blast
        moreover from res nv None have "s' = leave actionId (enter actionId s)"
          by (simp add: checkCycle.simps)
        ultimately show ?thesis by (rule leaf)
      next
        case (Some action)
        show ?thesis
        proof (cases "edges action")
          case None
          then have "\<forall>y. (actionId, y) \<notin> ?E"
            using edges_rel_no_succ \<open>map_of actionMap actionId = Some action\<close> by blast
          moreover from res nv None \<open>map_of actionMap actionId = Some action\<close>
          have "s' = leave actionId (enter actionId s)"
            by (simp add: checkCycle.simps)
          ultimately show ?thesis by (rule leaf)
        next
          case (Some deps)
          note act = \<open>map_of actionMap actionId = Some action\<close>
          from res nv act Some obtain r2 s2 where
            inner: "checkCycle_deps edges actionMap actionId deps (enter actionId s) = Inr (r2, s2)"
            and out: "(r, s') = (if r2 then (True, s2) else (False, leave actionId s2))"
            by (auto simp: checkCycle.simps split: sum.splits prod.splits if_splits)
          have sub1: "recursionStack (enter actionId s) \<subseteq> visited (enter actionId s)"
            using sub by auto
          from checkCycle_frame(2)[rule_format, OF sub1 inner]
          have f: "\<not> r2" "recursionStack s2 = recursionStack (enter actionId s)"
              "visited (enter actionId s) \<subseteq> visited s2"
            by blast+
          from "1.IH"[OF nv act Some] inv1(1) inner
          have i2: "dfs_inv ?E s2" "finished (enter actionId s) \<subseteq> finished s2"
              "set deps \<subseteq> finished s2"
            by blast+
          from out f(1) have s': "s' = leave actionId s2" by simp
          have a2: "actionId \<in> visited s2" "actionId \<in> recursionStack s2"
            using f by auto
          have "\<forall>y. (actionId, y) \<in> ?E \<longrightarrow> y \<in> finished s2"
            using i2(3) edges_rel_succ[where edges = edges, OF act Some] by blast
          from dfs_inv_finish[OF i2(1) a2 this] show ?thesis
            unfolding s' using i2(2) inv1(2) by auto
        qed
      qed
    qed
  qed
next
  case (2 edges actionMap actionId s)
  show ?case by simp
next
  case (3 edges actionMap actionId depId deps s)
  let ?E = "edges_rel edges actionMap"
  show ?case
  proof (intro impI allI)
    fix r s'
    assume inv: "dfs_inv ?E s"
      and res: "checkCycle_deps edges actionMap actionId (depId # deps) s = Inr (r, s')"
    have sub: "recursionStack s \<subseteq> visited s" using inv by (simp add: dfs_inv_def)
    show "dfs_inv ?E s' \<and> finished s \<subseteq> finished s' \<and> set (depId # deps) \<subseteq> finished s'"
    proof (cases "depId \<in> visited s")
      case True
      with res have ns: "depId \<notin> recursionStack s"
        and rest: "checkCycle_deps edges actionMap actionId deps s = Inr (r, s')"
        by (auto split: if_splits)
      from "3.IH"(3) True ns inv rest
      have "dfs_inv ?E s' \<and> finished s \<subseteq> finished s' \<and> set deps \<subseteq> finished s'" by blast
      moreover have "depId \<in> finished s" using True ns by (simp add: finished_def)
      ultimately show ?thesis by auto
    next
      case nv: False
      from res nv obtain r1 s1 where
        c1: "checkCycle edges actionMap depId s = Inr (r1, s1)"
        by (auto split: sum.splits prod.splits if_splits)
      from checkCycle_frame(1)[rule_format, OF sub c1]
      have f1: "\<not> r1" "recursionStack s1 = recursionStack s" "visited s \<subseteq> visited s1"
        by blast+
      from res nv c1 f1(1) have ns1: "depId \<notin> recursionStack s1"
        and rest: "checkCycle_deps edges actionMap actionId deps s1 = Inr (r, s')"
        by (auto split: if_splits)
      from "3.IH"(1)[OF nv] inv c1 ns1 f1(2)
      have i1: "dfs_inv ?E s1" "finished s \<subseteq> finished s1" "depId \<in> finished s1"
        by blast+
      from "3.IH"(2)[OF nv c1 refl f1(1) ns1] i1(1) rest
      have "dfs_inv ?E s' \<and> finished s1 \<subseteq> finished s' \<and> set deps \<subseteq> finished s'"
        by blast
      then show ?thesis using i1 by auto
    qed
  qed
qed

lemma checkCycle_sound:
  "recursionStack s \<subseteq> visited s
   \<and> (\<forall>x \<in> recursionStack s. (x, a) \<in> (edges_rel e m)\<^sup>*) \<longrightarrow>
     (\<forall>err. checkCycle e m a s = Inl err \<longrightarrow> (\<exists>x. (x, x) \<in> (edges_rel e m)\<^sup>+))"
  "recursionStack s \<subseteq> visited s
   \<and> (\<forall>x \<in> recursionStack s. (x, a) \<in> (edges_rel e m)\<^sup>*)
   \<and> (\<forall>d \<in> set ds. (a, d) \<in> edges_rel e m) \<longrightarrow>
     (\<forall>err. checkCycle_deps e m a ds s = Inl err \<longrightarrow> (\<exists>x. (x, x) \<in> (edges_rel e m)\<^sup>+))"
proof (induction e m a s and e m a ds s rule: checkCycle_checkCycle_deps.induct)
  case (1 edges actionMap actionId s)
  let ?E = "edges_rel edges actionMap"
  show ?case
  proof (intro impI allI)
    fix err
    assume pre: "recursionStack s \<subseteq> visited s
        \<and> (\<forall>x \<in> recursionStack s. (x, actionId) \<in> ?E\<^sup>*)"
      and res: "checkCycle edges actionMap actionId s = Inl err"
    from res have nv: "actionId \<notin> visited s"
      by (auto simp: checkCycle.simps split: if_splits)
    from res nv obtain action where act: "map_of actionMap actionId = Some action"
      by (auto simp: checkCycle.simps split: option.splits)
    from res nv act obtain deps where deps: "edges action = Some deps"
      by (auto simp: checkCycle.simps split: option.splits)
    from res nv act deps
    have inner: "checkCycle_deps edges actionMap actionId deps (enter actionId s) = Inl err"
      by (auto simp: checkCycle.simps split: sum.splits prod.splits if_splits)
    have "recursionStack (enter actionId s) \<subseteq> visited (enter actionId s)
       \<and> (\<forall>x \<in> recursionStack (enter actionId s). (x, actionId) \<in> ?E\<^sup>*)
       \<and> (\<forall>d \<in> set deps. (actionId, d) \<in> ?E)"
      using pre edges_rel_succ[where edges = edges, OF act deps] by auto
    with "1.IH"[OF nv act deps] inner
    show "\<exists>x. (x, x) \<in> ?E\<^sup>+" by blast
  qed
next
  case (2 edges actionMap actionId s)
  show ?case by simp
next
  case (3 edges actionMap actionId depId deps s)
  let ?E = "edges_rel edges actionMap"
  show ?case
  proof (intro impI allI)
    fix err
    assume pre: "recursionStack s \<subseteq> visited s
        \<and> (\<forall>x \<in> recursionStack s. (x, actionId) \<in> ?E\<^sup>*)
        \<and> (\<forall>d \<in> set (depId # deps). (actionId, d) \<in> ?E)"
      and res: "checkCycle_deps edges actionMap actionId (depId # deps) s = Inl err"
    have sub: "recursionStack s \<subseteq> visited s" using pre by blast
    have edge: "(actionId, depId) \<in> ?E" using pre by simp
    have path: "\<forall>x \<in> recursionStack s. (x, actionId) \<in> ?E\<^sup>*" using pre by blast
    have rest_edges: "\<forall>d \<in> set deps. (actionId, d) \<in> ?E" using pre by simp
    show "\<exists>x. (x, x) \<in> ?E\<^sup>+"
    proof (cases "depId \<in> visited s")
      case True
      show ?thesis
      proof (cases "depId \<in> recursionStack s")
        case True
        then have "(depId, actionId) \<in> ?E\<^sup>*" using path by blast
        then have "(depId, depId) \<in> ?E\<^sup>+" using edge by (rule rtrancl_into_trancl1)
        then show ?thesis by blast
      next
        case False
        with res True have "checkCycle_deps edges actionMap actionId deps s = Inl err"
          by simp
        with "3.IH"(3)[OF _ False] True sub path rest_edges show ?thesis by blast
      qed
    next
      case nv: False
      have path_d: "\<forall>x \<in> recursionStack s. (x, depId) \<in> ?E\<^sup>*"
        using path edge by (meson rtrancl.rtrancl_into_rtrancl)
      show ?thesis
      proof (cases "checkCycle edges actionMap depId s")
        case (Inl e1)
        with "3.IH"(1)[OF nv] sub path_d show ?thesis by blast
      next
        case (Inr p)
        obtain r1 s1 where p: "p = (r1, s1)" by (cases p)
        have c1: "checkCycle edges actionMap depId s = Inr (r1, s1)" using Inr p by simp
        from checkCycle_frame(1)[rule_format, OF sub c1]
        have f1: "\<not> r1" "recursionStack s1 = recursionStack s" "visited s \<subseteq> visited s1"
          by blast+
        have ns1: "depId \<notin> recursionStack s1" using f1(2) nv sub by blast
        from res nv c1 f1(1) ns1
        have rest: "checkCycle_deps edges actionMap actionId deps s1 = Inl err"
          by simp
        have "recursionStack s1 \<subseteq> visited s1
            \<and> (\<forall>x \<in> recursionStack s1. (x, actionId) \<in> ?E\<^sup>*)
            \<and> (\<forall>d \<in> set deps. (actionId, d) \<in> ?E)"
          using f1 sub path rest_edges by auto
        with "3.IH"(2)[OF nv c1 refl f1(1) ns1] rest show ?thesis by blast
      qed
    qed
  qed
qed

lemma checkCycle_roots_inv:
  assumes "dfs_inv (edges_rel e m) s" and "recursionStack s = {}"
    and "checkCycle_roots e m actions s = Inr s'"
  shows "dfs_inv (edges_rel e m) s' \<and> recursionStack s' = {}
       \<and> visited s \<union> action_id ` set actions \<subseteq> visited s'"
  using assms
proof (induction actions arbitrary: s)
  case Nil
  then show ?case by simp
next
  case (Cons action actions)
  have sub: "recursionStack s \<subseteq> visited s" using Cons.prems(2) by simp
  show ?case
  proof (cases "action_id action \<in> visited s")
    case True
    with Cons.prems(3) have "checkCycle_roots e m actions s = Inr s'" by simp
    from Cons.IH[OF Cons.prems(1,2) this] True show ?thesis by auto
  next
    case nv: False
    from Cons.prems(3) nv obtain r1 s1 where
      c1: "checkCycle e m (action_id action) s = Inr (r1, s1)"
      and rest: "checkCycle_roots e m actions s1 = Inr s'"
      by (auto split: sum.splits prod.splits)
    from checkCycle_frame(1)[rule_format, OF sub c1]
    have f1: "recursionStack s1 = recursionStack s" "visited s \<subseteq> visited s1"
        "action_id action \<in> visited s1"
      by blast+
    from checkCycle_inv(1)[rule_format, OF Cons.prems(1) c1]
    have i1: "dfs_inv (edges_rel e m) s1" by blast
    from Cons.IH[OF i1 _ rest] f1 Cons.prems(2) show ?thesis by auto
  qed
qed

lemma checkCycle_roots_sound:
  assumes "recursionStack s = {}"
    and "checkCycle_roots e m actions s = Inl err"
  shows "\<exists>x. (x, x) \<in> (edges_rel e m)\<^sup>+"
  using assms
proof (induction actions arbitrary: s)
  case Nil
  then show ?case by simp
next
  case (Cons action actions)
  have sub: "recursionStack s \<subseteq> visited s" using Cons.prems(1) by simp
  show ?case
  proof (cases "action_id action \<in> visited s")
    case True
    with Cons.prems(2) have "checkCycle_roots e m actions s = Inl err" by simp
    from Cons.IH[OF Cons.prems(1) this] show ?thesis .
  next
    case nv: False
    show ?thesis
    proof (cases "checkCycle e m (action_id action) s")
      case (Inl e1)
      with checkCycle_sound(1)[of s "action_id action" e m] Cons.prems(1)
      show ?thesis by auto
    next
      case (Inr p)
      obtain r1 s1 where p: "p = (r1, s1)" by (cases p)
      have c1: "checkCycle e m (action_id action) s = Inr (r1, s1)" using Inr p by simp
      from checkCycle_frame(1)[rule_format, OF sub c1]
      have f1: "recursionStack s1 = recursionStack s" by blast
      from Cons.prems(2) nv c1 have "checkCycle_roots e m actions s1 = Inl err" by simp
      from Cons.IH[OF _ this] f1 Cons.prems(1) show ?thesis by simp
    qed
  qed
qed

lemma dfs_inv_init: "dfs_inv E \<lparr>visited = {}, recursionStack = {}\<rparr>"
  by (simp add: dfs_inv_def finished_def)

lemma edges_rel_domain:
  "(x, y) \<in> edges_rel e m \<Longrightarrow> x \<in> fst ` set m"
  by (auto simp: edges_rel_def dest!: map_of_SomeD intro: rev_image_eqI)

lemma trancl_first_domain:
  "(x, y) \<in> (edges_rel e m)\<^sup>+ \<Longrightarrow> x \<in> fst ` set m"
  by (metis edges_rel_domain tranclD)

lemma keys_actionMap_of: "fst ` set (actionMap_of actions) = action_id ` set actions"
proof -
  have "\<And>m0. fst ` set (foldl (\<lambda>m a. AList.update (action_id a) a m) m0 actions)
          = fst ` set m0 \<union> action_id ` set actions"
  proof (induction actions)
    case Nil
    show ?case by simp
  next
    case (Cons a actions)
    have "set (map fst (AList.update (action_id a) a m0))
            = insert (action_id a) (set (map fst m0))"
      by (auto simp: update_keys)
    then have "fst ` set (AList.update (action_id a) a m0) = insert (action_id a) (fst ` set m0)"
      by simp
    then show ?case by (simp add: Cons.IH)
  qed
  then show ?thesis by (simp add: actionMap_of_def)
qed

lemma checkForDependencyCycles_iff:
  "(\<exists>err. checkForDependencyCycles e actions = Inl err)
     \<longleftrightarrow> (\<exists>x. (x, x) \<in> (edges_rel e (actionMap_of actions))\<^sup>+)"
proof
  assume "\<exists>err. checkForDependencyCycles e actions = Inl err"
  then obtain err where
    "checkCycle_roots e (actionMap_of actions) actions \<lparr>visited = {}, recursionStack = {}\<rparr>
       = Inl err"
    by (auto simp: checkForDependencyCycles_def split: sum.splits)
  then show "\<exists>x. (x, x) \<in> (edges_rel e (actionMap_of actions))\<^sup>+"
    by (intro checkCycle_roots_sound[where s = "\<lparr>visited = {}, recursionStack = {}\<rparr>"]) simp_all
next
  assume "\<exists>x. (x, x) \<in> (edges_rel e (actionMap_of actions))\<^sup>+"
  then obtain x where x: "(x, x) \<in> (edges_rel e (actionMap_of actions))\<^sup>+" by blast
  show "\<exists>err. checkForDependencyCycles e actions = Inl err"
  proof (cases "checkCycle_roots e (actionMap_of actions) actions
                  \<lparr>visited = {}, recursionStack = {}\<rparr>")
    case (Inl err)
    then show ?thesis by (simp add: checkForDependencyCycles_def)
  next
    case (Inr s')
    from checkCycle_roots_inv[OF dfs_inv_init _ Inr]
    have i: "dfs_inv (edges_rel e (actionMap_of actions)) s'" "recursionStack s' = {}"
        "action_id ` set actions \<subseteq> visited s'"
      by simp_all
    have "x \<in> action_id ` set actions"
      using trancl_first_domain[OF x] by (simp add: keys_actionMap_of)
    then have "x \<in> finished s'" using i(2,3) by (auto simp: finished_def)
    then have "(x, x) \<notin> (edges_rel e (actionMap_of actions))\<^sup>+"
      using i(1) by (simp add: dfs_inv_def)
    then show ?thesis using x by simp
  qed
qed

lemma update_fresh:
  "k \<notin> fst ` set ps \<Longrightarrow> AList.update k v ps = ps @ [(k, v)]"
  by (induction ps) auto

lemma foldl_update_distinct:
  assumes "distinct (map key xs)" and "key ` set xs \<inter> fst ` set m0 = {}"
  shows "foldl (\<lambda>m a. AList.update (key a) (val a) m) m0 xs
           = m0 @ map (\<lambda>a. (key a, val a)) xs"
  using assms
proof (induction xs arbitrary: m0)
  case Nil
  show ?case by simp
next
  case (Cons x xs)
  have fresh: "key x \<notin> fst ` set m0" using Cons.prems(2) by auto
  then have u: "AList.update (key x) (val x) m0 = m0 @ [(key x, val x)]"
    by (rule update_fresh)
  have d: "distinct (map key xs)" using Cons.prems(1) by simp
  have "key ` set xs \<inter> fst ` set (m0 @ [(key x, val x)]) = {}"
    using Cons.prems by auto
  from Cons.IH[OF d this] show ?case by (simp add: u)
qed

lemma actionMap_of_unique:
  assumes "unique_ids actions"
  shows "actionMap_of actions = map (\<lambda>a. (action_id a, a)) actions"
  using foldl_update_distinct[of action_id actions "[]" "\<lambda>a. a"] assms
  by (simp add: actionMap_of_def unique_ids_def)

lemma map_of_actionMap_unique:
  assumes "unique_ids actions"
  shows "map_of (actionMap_of actions) x = Some a \<longleftrightarrow> a \<in> set actions \<and> action_id a = x"
proof -
  have d: "distinct (map fst (map (\<lambda>a. (action_id a, a)) actions))"
    using assms by (simp add: unique_ids_def comp_def)
  show ?thesis
    unfolding actionMap_of_unique[OF assms] map_of_eq_Some_iff[OF d] by auto
qed

lemma edges_rel_depends_rel:
  assumes "unique_ids actions"
  shows "edges_rel dependsOn (actionMap_of actions) = depends_rel actions"
  unfolding edges_rel_def depends_rel_def map_of_actionMap_unique[OF assms]
  by (auto simp: entries_def split: option.splits)

lemma entries_exist_iff:
  "(\<exists>err. entries_exist mk ids a deps = Inl err) \<longleftrightarrow> (\<exists>d \<in> entries deps. d \<notin> ids)"
proof (cases deps)
  case None
  then show ?thesis by (simp add: entries_def)
next
  case (Some ds)
  have "(\<exists>err. entries_exist mk ids a (Some ds) = Inl err) \<longleftrightarrow> (\<exists>d \<in> set ds. d \<notin> ids)"
    by (induction ds) auto
  then show ?thesis using Some by (simp add: entries_def)
qed

lemma TaskService_dependencies_exist_iff:
  "(\<exists>err. TaskService_dependencies_exist ids actions = Inl err)
     \<longleftrightarrow> (\<exists>a \<in> set actions. \<exists>d \<in> entries (dependsOn a). d \<notin> ids)"
proof (induction actions)
  case Nil
  show ?case by simp
next
  case (Cons a actions)
  show ?case
  proof (cases "entries_exist NonExistentDependency ids (action_id a) (dependsOn a)")
    case (Inl err)
    then have "\<exists>d \<in> entries (dependsOn a). d \<notin> ids"
      using entries_exist_iff[of NonExistentDependency ids "action_id a" "dependsOn a"] by blast
    then show ?thesis using Inl by auto
  next
    case (Inr u)
    then have "\<not> (\<exists>d \<in> entries (dependsOn a). d \<notin> ids)"
      using entries_exist_iff[of NonExistentDependency ids "action_id a" "dependsOn a"] by simp
    then show ?thesis using Inr Cons.IH by auto
  qed
qed

lemma checkForDependencyCycles_has_cycle:
  assumes "unique_ids actions"
  shows "(\<exists>err. checkForDependencyCycles dependsOn actions = Inl err) \<longleftrightarrow> has_cycle actions"
  unfolding checkForDependencyCycles_iff edges_rel_depends_rel[OF assms] has_cycle_def ..

lemma unique_ids_scenario1: "unique_ids scenario1"
  by (simp add: unique_ids_def scenario1_def example_action_def)

lemma no_cycle_scenario1: "\<not> has_cycle scenario1"
proof -
  have "checkForDependencyCycles dependsOn scenario1 = Inr ()"
    by (simp add: scenario1_def example_action_def checkForDependencyCycles_def
          actionMap_of_def checkCycle.simps)
  then show ?thesis
    using checkForDependencyCycles_has_cycle[OF unique_ids_scenario1] by simp
qed

lemma no_dangling_scenario1: "\<not> has_dangling scenario1"
  by (simp add: has_dangling_def scenario1_def example_action_def entries_def)

text \<open>
  Claim C1. For every action collection (its ids unique, as the data model requires),
  \<^verbatim>\<open>TaskService.validateActionDependencies\<close> throws exactly when some \<^verbatim>\<open>dependsOn\<close>
  entry is the id of no action of the collection or the dependency relation has a cycle.
  The search is started at every action not yet visited, so a cycle is found wherever it
  lies in the iteration order; the example that follows the theorem has two actions without
  edges in front of the cycle.
\<close>

theorem validateActionDependencies_iff:
  assumes "unique_ids actions"
  shows "(\<exists>err. TaskService_validateActionDependencies actions = Inl err)
           \<longleftrightarrow> has_dangling actions \<or> has_cycle actions"
proof -
  have refs: "(\<exists>err. TaskService_dependencies_exist (set (map action_id actions)) actions = Inl err)
                \<longleftrightarrow> has_dangling actions"
    unfolding TaskService_dependencies_exist_iff has_dangling_def by simp
  have cyc: "(\<exists>err. checkForDependencyCycles dependsOn actions = Inl err)
                \<longleftrightarrow> has_cycle actions"
    unfolding checkForDependencyCycles_iff edges_rel_depends_rel[OF assms] has_cycle_def ..
  show ?thesis
  proof (cases "TaskService_dependencies_exist (set (map action_id actions)) actions")
    case (Inl err)
    then have "has_dangling actions" using refs by blast
    then show ?thesis using Inl by (simp add: TaskService_validateActionDependencies_def)
  next
    case (Inr u)
    then have "\<not> has_dangling actions" using refs by simp
    then show ?thesis
      using Inr cyc by (simp add: TaskService_validateActionDependencies_def)
  qed
qed

lemma has_cycle_detached_cycle: "has_cycle detached_cycle"
proof -
  have "(''A'', ''B'') \<in> depends_rel detached_cycle"
       "(''B'', ''A'') \<in> depends_rel detached_cycle"
    by (simp_all add: depends_rel_def detached_cycle_def example_action_def entries_def)
  then have "(''A'', ''A'') \<in> (depends_rel detached_cycle)\<^sup>+"
    by (rule trancl_into_trancl2[OF _ r_into_trancl])
  then show ?thesis unfolding has_cycle_def by blast
qed

theorem validateActionDependencies_iff_witness:
  "unique_ids detached_cycle
   \<and> has_cycle detached_cycle
   \<and> TaskService_validateActionDependencies detached_cycle = Inl (DependencyCycle ''B'' ''A'')
   \<and> unique_ids scenario1
   \<and> TaskService_validateActionDependencies scenario1 = Inr ()
   \<and> \<not> has_dangling scenario1 \<and> \<not> has_cycle scenario1"
proof -
  have u: "unique_ids detached_cycle"
    by (simp add: unique_ids_def detached_cycle_def example_action_def)
  have ev: "TaskService_validateActionDependencies detached_cycle
              = Inl (DependencyCycle ''B'' ''A'')"
    by (simp add: detached_cycle_def TaskService_validateActionDependencies_def
          example_action_def checkForDependencyCycles_def actionMap_of_def checkCycle.simps)
  have u1: "unique_ids scenario1"
    by (simp add: unique_ids_def scenario1_def example_action_def)
  have ev1: "TaskService_validateActionDependencies scenario1 = Inr ()"
    by (simp add: scenario1_def TaskService_validateActionDependencies_def
          example_action_def checkForDependencyCycles_def actionMap_of_def checkCycle.simps)
  have "\<exists>err. TaskService_validateActionDependencies detached_cycle = Inl err"
    using validateActionDependencies_iff[OF u] has_cycle_detached_cycle by blast
  moreover have "\<not> has_dangling scenario1 \<and> \<not> has_cycle scenario1"
    using validateActionDependencies_iff[OF u1] ev1 by simp
  ultimately show ?thesis
    using u has_cycle_detached_cycle ev u1 ev1 by blast
qed

section \<open>Levels\<close>

lemma processedActionIds_of_snoc:
  "processedActionIds_of (levels @ [l]) = processedActionIds_of levels \<union> action_id ` set l"
  by (auto simp: processedActionIds_of_def)

lemma processedActionIds_of_take:
  "x \<in> processedActionIds_of (take k ls)
     \<longleftrightarrow> (\<exists>j. j < k \<and> j < length ls \<and> x \<in> action_id ` set (ls ! j))"
proof (induction k)
  case 0
  show ?case by (simp add: processedActionIds_of_def)
next
  case (Suc k)
  show ?case
  proof (cases "k < length ls")
    case True
    then have "take (Suc k) ls = take k ls @ [ls ! k]"
      by (simp add: take_Suc_conv_app_nth)
    then show ?thesis
      using Suc True by (auto simp: processedActionIds_of_snoc less_Suc_eq)
  next
    case False
    then have "take (Suc k) ls = take k ls" by simp
    then show ?thesis using Suc False by (auto simp: less_Suc_eq)
  qed
qed

lemma filter_no_dependencies:
  "filter no_dependencies actions = filter (in_nextLevel (processedActionIds_of [])) actions"
proof (rule filter_cong)
  fix a
  show "no_dependencies a = in_nextLevel (processedActionIds_of []) a"
  proof (cases "dependsOn a")
    case None
    then show ?thesis
      by (simp add: no_dependencies_def in_nextLevel_def processedActionIds_of_def)
  next
    case (Some deps)
    then show ?thesis
      by (cases deps)
         (simp_all add: no_dependencies_def in_nextLevel_def processedActionIds_of_def)
  qed
qed simp

lemma organize_loop_levels:
  assumes "currentLevel = filter (in_nextLevel (processedActionIds_of levels)) actions"
  shows "take (length levels) (organize_loop actions levels currentLevel) = levels
       \<and> length levels \<le> length (organize_loop actions levels currentLevel)
       \<and> (\<forall>k. length levels \<le> k \<and> k < length (organize_loop actions levels currentLevel) \<longrightarrow>
             organize_loop actions levels currentLevel ! k
               = filter (in_nextLevel (processedActionIds_of
                   (take k (organize_loop actions levels currentLevel)))) actions
             \<and> organize_loop actions levels currentLevel ! k \<noteq> [])
       \<and> filter (in_nextLevel (processedActionIds_of
             (organize_loop actions levels currentLevel))) actions = []"
  using assms
proof (induction actions levels currentLevel rule: organize_loop.induct)
  case (1 actions levels currentLevel)
  show ?case
  proof (cases "currentLevel = []")
    case True
    then have "organize_loop actions levels currentLevel = levels"
      by (simp add: organize_loop.simps)
    then show ?thesis using "1.prems" True by simp
  next
    case False
    let ?next = "filter (in_nextLevel (processedActionIds_of (levels @ [currentLevel]))) actions"
    let ?ls = "organize_loop actions (levels @ [currentLevel]) ?next"
    have eq: "organize_loop actions levels currentLevel = ?ls"
      using False by (subst organize_loop.simps) simp
    have IH: "take (length (levels @ [currentLevel])) ?ls = levels @ [currentLevel]
       \<and> length (levels @ [currentLevel]) \<le> length ?ls
       \<and> (\<forall>k. length (levels @ [currentLevel]) \<le> k \<and> k < length ?ls \<longrightarrow>
             ?ls ! k = filter (in_nextLevel (processedActionIds_of (take k ?ls))) actions
             \<and> ?ls ! k \<noteq> [])
       \<and> filter (in_nextLevel (processedActionIds_of ?ls)) actions = []"
      using False by (intro "1.IH") simp_all
    have tk: "take (Suc (length levels)) ?ls = levels @ [currentLevel]"
      using IH by simp
    have len: "Suc (length levels) \<le> length ?ls"
      using IH by simp
    have later: "\<And>k. Suc (length levels) \<le> k \<Longrightarrow> k < length ?ls \<Longrightarrow>
             ?ls ! k = filter (in_nextLevel (processedActionIds_of (take k ?ls))) actions
             \<and> ?ls ! k \<noteq> []"
      using IH by (metis length_append_singleton)
    have exit: "filter (in_nextLevel (processedActionIds_of ?ls)) actions = []"
      using IH by blast
    have t0: "take (length levels) ?ls = levels"
    proof -
      have "take (length levels) ?ls = take (length levels) (take (Suc (length levels)) ?ls)"
        by (simp add: min_def)
      then show ?thesis by (simp add: tk)
    qed
    have n0: "?ls ! length levels = currentLevel"
    proof -
      have "?ls ! length levels = take (Suc (length levels)) ?ls ! length levels"
        by simp
      then show ?thesis by (simp add: tk)
    qed
    have at: "\<And>k. length levels \<le> k \<Longrightarrow> k < length ?ls \<Longrightarrow>
             ?ls ! k = filter (in_nextLevel (processedActionIds_of (take k ?ls))) actions
             \<and> ?ls ! k \<noteq> []"
    proof -
      fix k assume k: "length levels \<le> k" "k < length ?ls"
      show "?ls ! k = filter (in_nextLevel (processedActionIds_of (take k ?ls))) actions
             \<and> ?ls ! k \<noteq> []"
      proof (cases "k = length levels")
        case True
        then show ?thesis using n0 t0 "1.prems" False by simp
      next
        case False
        then have "Suc (length levels) \<le> k" using k(1) by simp
        then show ?thesis using later k(2) by blast
      qed
    qed
    have len': "length levels \<le> length ?ls"
      using len by simp
    have all: "\<forall>k. length levels \<le> k \<and> k < length ?ls \<longrightarrow>
             ?ls ! k = filter (in_nextLevel (processedActionIds_of (take k ?ls))) actions
             \<and> ?ls ! k \<noteq> []"
      using at by blast
    show ?thesis
      unfolding eq by (intro conjI t0 len' all exit)
  qed
qed

lemma organizeActions_levels:
  "(\<forall>k < length (organizeActions actions).
       organizeActions actions ! k
         = filter (in_nextLevel (processedActionIds_of (take k (organizeActions actions))))
             actions
       \<and> organizeActions actions ! k \<noteq> [])
   \<and> filter (in_nextLevel (processedActionIds_of (organizeActions actions))) actions = []"
proof -
  let ?ls = "organize_loop actions [] (filter (in_nextLevel (processedActionIds_of [])) actions)"
  have eq: "organizeActions actions = ?ls"
    by (simp add: organizeActions_def filter_no_dependencies)
  note L = organize_loop_levels[OF refl, of "[]" actions]
  have 1: "\<forall>k < length ?ls.
       ?ls ! k = filter (in_nextLevel (processedActionIds_of (take k ?ls))) actions
       \<and> ?ls ! k \<noteq> []"
  proof (intro allI impI)
    fix k assume k: "k < length ?ls"
    have "length ([] :: TaskAction list list) \<le> k \<and> k < length ?ls"
      using k by simp
    then show "?ls ! k = filter (in_nextLevel (processedActionIds_of (take k ?ls))) actions
       \<and> ?ls ! k \<noteq> []"
      by (rule L[THEN conjunct2, THEN conjunct2, THEN conjunct1, rule_format])
  qed
  have 2: "filter (in_nextLevel (processedActionIds_of ?ls)) actions = []"
    using L[THEN conjunct2, THEN conjunct2, THEN conjunct2] .
  show ?thesis unfolding eq by (intro conjI 1 2)
qed

lemma organizeActions_level:
  assumes "k < length (organizeActions actions)"
  shows "organizeActions actions ! k
           = filter (in_nextLevel (processedActionIds_of (take k (organizeActions actions))))
               actions"
  using organizeActions_levels assms by blast

lemma organizeActions_exit:
  "a \<in> set actions \<Longrightarrow>
     \<not> in_nextLevel (processedActionIds_of (organizeActions actions)) a"
  using organizeActions_levels[of actions] by (auto simp: filter_empty_conv)

lemma in_nextLevel_iff:
  "in_nextLevel P a \<longleftrightarrow> action_id a \<notin> P \<and> entries (dependsOn a) \<subseteq> P"
  by (auto simp: in_nextLevel_def entries_def list_all_iff split: option.splits)

lemma organizeActions_empty:
  "filter no_dependencies actions = [] \<Longrightarrow> organizeActions actions = []"
  by (simp add: organizeActions_def organize_loop.simps)

lemma organizeActions_first:
  assumes "filter no_dependencies actions \<noteq> []"
  shows "organizeActions actions \<noteq> [] \<and> organizeActions actions ! 0 = filter no_dependencies actions"
proof -
  have "take (length [filter no_dependencies actions])
          (organize_loop actions ([] @ [filter no_dependencies actions])
             (filter (in_nextLevel (processedActionIds_of ([] @ [filter no_dependencies actions]))) actions))
        = [filter no_dependencies actions]
        \<and> length [filter no_dependencies actions]
            \<le> length (organize_loop actions ([] @ [filter no_dependencies actions])
             (filter (in_nextLevel (processedActionIds_of ([] @ [filter no_dependencies actions]))) actions))"
    using organize_loop_levels[of "filter (in_nextLevel (processedActionIds_of ([] @ [filter no_dependencies actions]))) actions"
        "[] @ [filter no_dependencies actions]" actions]
    by simp
  moreover have "organizeActions actions
     = organize_loop actions ([] @ [filter no_dependencies actions])
             (filter (in_nextLevel (processedActionIds_of ([] @ [filter no_dependencies actions]))) actions)"
    using assms unfolding organizeActions_def by (subst organize_loop.simps) simp
  ultimately have "take 1 (organizeActions actions) = [filter no_dependencies actions]"
    and "1 \<le> length (organizeActions actions)"
    by simp_all
  then show ?thesis
    by (cases "organizeActions actions") auto
qed

lemma level_member:
  assumes k: "k < length (organizeActions actions)"
    and a: "a \<in> set (organizeActions actions ! k)"
  shows "a \<in> set actions"
    and "action_id a \<notin> processedActionIds_of (take k (organizeActions actions))"
    and "entries (dependsOn a) \<subseteq> processedActionIds_of (take k (organizeActions actions))"
proof -
  have lev: "organizeActions actions ! k
     = filter (in_nextLevel (processedActionIds_of (take k (organizeActions actions)))) actions"
    using k by (rule organizeActions_level)
  from a show "a \<in> set actions" by (subst (asm) lev) simp
  from a have "in_nextLevel (processedActionIds_of (take k (organizeActions actions))) a"
    by (subst (asm) lev) simp
  then show "action_id a \<notin> processedActionIds_of (take k (organizeActions actions))"
    and "entries (dependsOn a) \<subseteq> processedActionIds_of (take k (organizeActions actions))"
    by (simp_all add: in_nextLevel_iff)
qed

lemma level_dependencies_earlier:
  assumes "k < length (organizeActions actions)"
    and "a \<in> set (organizeActions actions ! k)"
    and "d \<in> entries (dependsOn a)"
  shows "\<exists>j < k. d \<in> action_id ` set (organizeActions actions ! j)"
proof -
  have "d \<in> processedActionIds_of (take k (organizeActions actions))"
    using level_member(3)[OF assms(1,2)] assms(3) by blast
  then show ?thesis
    unfolding processedActionIds_of_take by blast
qed

lemma level_id_fresh:
  assumes "k < length (organizeActions actions)"
    and "a \<in> set (organizeActions actions ! k)"
    and "j < k"
  shows "action_id a \<notin> action_id ` set (organizeActions actions ! j)"
proof
  assume "action_id a \<in> action_id ` set (organizeActions actions ! j)"
  then have "action_id a \<in> processedActionIds_of (take k (organizeActions actions))"
    unfolding processedActionIds_of_take using assms(1,3) by (intro exI[of _ j]) simp
  then show False using level_member(2)[OF assms(1,2)] by simp
qed

lemma level_not_earlier:
  assumes k: "k < length (organizeActions actions)"
    and a: "a \<in> set (organizeActions actions ! k)"
    and pos: "0 < k"
  shows "\<exists>d \<in> entries (dependsOn a). d \<in> action_id ` set (organizeActions actions ! (k - 1))"
proof -
  let ?ls = "organizeActions actions"
  have k1: "k - 1 < length ?ls" "k - 1 < k" using k pos by simp_all
  have lev1: "?ls ! (k - 1)
                = filter (in_nextLevel (processedActionIds_of (take (k - 1) ?ls))) actions"
    using k1(1) by (rule organizeActions_level)
  have inA: "a \<in> set actions" using level_member(1)[OF k a] .
  have fresh: "action_id a \<notin> action_id ` set (?ls ! (k - 1))"
    using level_id_fresh[OF k a k1(2)] .
  then have "a \<notin> set (?ls ! (k - 1))" by blast
  then have nn: "\<not> in_nextLevel (processedActionIds_of (take (k - 1) ?ls)) a"
    using inA by (subst (asm) lev1) simp
  have "action_id a \<notin> processedActionIds_of (take (k - 1) ?ls)"
  proof
    assume "action_id a \<in> processedActionIds_of (take (k - 1) ?ls)"
    then obtain j where "j < k - 1" "action_id a \<in> action_id ` set (?ls ! j)"
      unfolding processedActionIds_of_take by blast
    then show False using level_id_fresh[OF k a, of j] by simp
  qed
  with nn obtain d where d: "d \<in> entries (dependsOn a)"
      "d \<notin> processedActionIds_of (take (k - 1) ?ls)"
    unfolding in_nextLevel_iff by blast
  obtain j where j: "j < k" "d \<in> action_id ` set (?ls ! j)"
    using level_dependencies_earlier[OF k a d(1)] by blast
  have "j = k - 1"
  proof (rule ccontr)
    assume "j \<noteq> k - 1"
    then have "j < k - 1" using j(1) by simp
    moreover have "j < length ?ls" using j(1) k by simp
    ultimately have "d \<in> processedActionIds_of (take (k - 1) ?ls)"
      unfolding processedActionIds_of_take using j(2) by blast
    then show False using d(2) by simp
  qed
  then show ?thesis using d(1) j(2) by blast
qed

lemma level_subseq:
  assumes "k < length (organizeActions actions)"
  shows "subseq (organizeActions actions ! k) actions"
proof -
  have "organizeActions actions ! k
     = filter (in_nextLevel (processedActionIds_of (take k (organizeActions actions)))) actions"
    using assms by (rule organizeActions_level)
  then show ?thesis by (metis subseq_filter_left)
qed

lemma in_concat_levels:
  "a \<in> set (concat ls) \<longleftrightarrow> (\<exists>k < length ls. a \<in> set (ls ! k))"
proof -
  have "a \<in> set (concat ls) \<longleftrightarrow> (\<exists>l \<in> set ls. a \<in> set l)"
    by simp
  also have "\<dots> \<longleftrightarrow> (\<exists>k < length ls. a \<in> set (ls ! k))"
    by (metis in_set_conv_nth)
  finally show ?thesis .
qed

lemma organizeActions_subset: "set (concat (organizeActions actions)) \<subseteq> set actions"
proof
  fix a assume "a \<in> set (concat (organizeActions actions))"
  then obtain k where "k < length (organizeActions actions)" "a \<in> set (organizeActions actions ! k)"
    unfolding in_concat_levels by blast
  then show "a \<in> set actions" by (rule level_member(1))
qed

lemma processed_all:
  "processedActionIds_of ls = action_id ` set (concat ls)"
  by (simp add: processedActionIds_of_def)

lemma finite_depends_rel: "finite (depends_rel actions)"
proof -
  have "depends_rel actions
          \<subseteq> action_id ` set actions \<times> (\<Union>a \<in> set actions. entries (dependsOn a))"
    by (auto simp: depends_rel_def)
  moreover have "finite (action_id ` set actions \<times> (\<Union>a \<in> set actions. entries (dependsOn a)))"
    by (auto simp: entries_def split: option.splits)
  ultimately show ?thesis by (rule finite_subset)
qed

lemma has_cycle_acyclic: "\<not> has_cycle actions \<longleftrightarrow> acyclic (depends_rel actions)"
  by (simp add: has_cycle_def acyclic_def)

lemma placed_imp_intact:
  assumes all: "set (concat (organizeActions actions)) = set actions"
  shows "\<not> has_dangling actions"
proof
  assume "has_dangling actions"
  then obtain a d where a: "a \<in> set actions" "d \<in> entries (dependsOn a)"
      "d \<notin> action_id ` set actions"
    unfolding has_dangling_def by blast
  from a(1) all have "a \<in> set (concat (organizeActions actions))" by simp
  then obtain k where k: "k < length (organizeActions actions)"
      "a \<in> set (organizeActions actions ! k)"
    unfolding in_concat_levels by blast
  obtain j where j: "j < k" "d \<in> action_id ` set (organizeActions actions ! j)"
    using level_dependencies_earlier[OF k a(2)] by blast
  then obtain b where b: "b \<in> set (organizeActions actions ! j)" "action_id b = d" by blast
  have "j < length (organizeActions actions)" using j(1) k(1) by simp
  then have "b \<in> set actions" using b(1) by (rule level_member(1))
  then show False using a(3) b(2) by blast
qed

lemma placed_imp_acyclic:
  assumes all: "set (concat (organizeActions actions)) = set actions"
  shows "\<not> has_cycle actions"
proof -
  let ?ls = "organizeActions actions"
  define rank where
    "rank x = (LEAST k. k < length ?ls \<and> x \<in> action_id ` set (?ls ! k))" for x
  have "acyclic (depends_rel actions)"
  proof (rule acyclicI_order[where f = rank])
    fix x y assume "(x, y) \<in> depends_rel actions"
    then obtain a where a: "a \<in> set actions" "action_id a = x" "y \<in> entries (dependsOn a)"
      unfolding depends_rel_def by blast
    from a(1) all have "a \<in> set (concat ?ls)" by simp
    then obtain k where k: "k < length ?ls" "a \<in> set (?ls ! k)"
      unfolding in_concat_levels by blast
    have rx: "rank x = k"
      unfolding rank_def
    proof (rule Least_equality)
      show "k < length ?ls \<and> x \<in> action_id ` set (?ls ! k)"
        using k a(2) by blast
    next
      fix k' assume k': "k' < length ?ls \<and> x \<in> action_id ` set (?ls ! k')"
      show "k \<le> k'"
      proof (rule ccontr)
        assume "\<not> k \<le> k'"
        then have "k' < k" by simp
        then have "action_id a \<notin> action_id ` set (?ls ! k')"
          by (rule level_id_fresh[OF k])
        then show False using k' a(2) by simp
      qed
    qed
    obtain j where j: "j < k" "y \<in> action_id ` set (?ls ! j)"
      using level_dependencies_earlier[OF k a(3)] by blast
    have "j < length ?ls \<and> y \<in> action_id ` set (?ls ! j)"
      using j k(1) by simp
    then have "rank y \<le> j"
      unfolding rank_def by (rule Least_le)
    then show "rank y < rank x" using rx j(1) by simp
  qed
  then show ?thesis by (simp add: has_cycle_acyclic)
qed

lemma intact_acyclic_imp_placed:
  assumes u: "unique_ids actions"
    and nc: "\<not> has_cycle actions"
    and nd: "\<not> has_dangling actions"
  shows "set actions \<subseteq> set (concat (organizeActions actions))"
proof -
  let ?ls = "organizeActions actions"
  let ?P = "processedActionIds_of ?ls"
  let ?U = "{x \<in> action_id ` set actions. x \<notin> ?P}"
  have wf: "wf ((depends_rel actions)\<inverse>)"
    using finite_depends_rel nc[unfolded has_cycle_acyclic]
    by (rule finite_acyclic_wf_converse)
  have empty: "?U = {}"
  proof (rule ccontr)
    assume "?U \<noteq> {}"
    then obtain x where "x \<in> ?U" by blast
    then obtain z where z: "z \<in> ?U"
        and zmin: "\<And>y. (y, z) \<in> (depends_rel actions)\<inverse> \<Longrightarrow> y \<notin> ?U"
      using wfE_min[OF wf, of x ?U] by blast
    from z obtain a where a: "a \<in> set actions" "action_id a = z" "z \<notin> ?P" by blast
    have "\<not> in_nextLevel ?P a" using a(1) by (rule organizeActions_exit)
    then obtain d where d: "d \<in> entries (dependsOn a)" "d \<notin> ?P"
      using a(2,3) unfolding in_nextLevel_iff by blast
    have "(z, d) \<in> depends_rel actions"
      using a(1,2) d(1) unfolding depends_rel_def by blast
    then have "d \<notin> ?U" using zmin by blast
    moreover have "d \<in> action_id ` set actions"
      using nd a(1) d(1) unfolding has_dangling_def by blast
    ultimately show False using d(2) by blast
  qed
  show ?thesis
  proof
    fix a assume a: "a \<in> set actions"
    then have "action_id a \<in> ?P" using empty by blast
    then obtain b where b: "b \<in> set (concat ?ls)" "action_id b = action_id a"
      unfolding processed_all by force
    then have "b \<in> set actions" using organizeActions_subset by blast
    then have "b = a" using u a b(2) by (auto intro: unique_ids_same)
    then show "a \<in> set (concat ?ls)" using b(1) by simp
  qed
qed

text \<open>
  Claim C6. The levels \<^verbatim>\<open>organizeActions\<close> returns, for every collection and so for the
  acyclic and referentially intact ones. There is no level when no action is without
  dependencies; otherwise the first level is the actions whose \<^verbatim>\<open>dependsOn\<close> is empty or
  absent. An action of level \<open>k\<close> is an action of the collection, each of its dependencies
  is the id of an action in a level before \<open>k\<close>, no action with its id is in a level before
  \<open>k\<close>, and when \<open>k > 0\<close> one of its dependencies is in level \<open>k - 1\<close>, so that it
  could not have been placed earlier. Every level lists its actions in the order of the
  input, and \<^verbatim>\<open>actionLevels\<close> of the visualizer computes the same levels; both being
  functions of the collection, running them again gives the same result. When the
  collection has unique ids, no cycle and no dangling entry, the levels hold all of its
  actions.
\<close>

theorem organizeActions_levels_greedy:
  "(filter no_dependencies actions = [] \<longrightarrow> organizeActions actions = [])
   \<and> (filter no_dependencies actions \<noteq> [] \<longrightarrow>
        organizeActions actions \<noteq> []
        \<and> organizeActions actions ! 0 = filter no_dependencies actions)
   \<and> (\<forall>k < length (organizeActions actions).
        \<forall>a \<in> set (organizeActions actions ! k).
          a \<in> set actions
          \<and> (\<forall>d \<in> entries (dependsOn a).
                \<exists>j < k. d \<in> action_id ` set (organizeActions actions ! j))
          \<and> (\<forall>j < k. action_id a \<notin> action_id ` set (organizeActions actions ! j))
          \<and> (0 < k \<longrightarrow>
                (\<exists>d \<in> entries (dependsOn a).
                   d \<in> action_id ` set (organizeActions actions ! (k - 1)))))
   \<and> (\<forall>k < length (organizeActions actions). subseq (organizeActions actions ! k) actions)
   \<and> actionLevels actions = organizeActions actions
   \<and> (unique_ids actions \<and> \<not> has_cycle actions \<and> \<not> has_dangling actions \<longrightarrow>
        set (concat (organizeActions actions)) = set actions)"
proof -
  have 1: "filter no_dependencies actions = [] \<longrightarrow> organizeActions actions = []"
    using organizeActions_empty by blast
  have 2: "filter no_dependencies actions \<noteq> [] \<longrightarrow>
        organizeActions actions \<noteq> []
        \<and> organizeActions actions ! 0 = filter no_dependencies actions"
    using organizeActions_first by blast
  have 3: "\<forall>k < length (organizeActions actions).
        \<forall>a \<in> set (organizeActions actions ! k).
          a \<in> set actions
          \<and> (\<forall>d \<in> entries (dependsOn a).
                \<exists>j < k. d \<in> action_id ` set (organizeActions actions ! j))
          \<and> (\<forall>j < k. action_id a \<notin> action_id ` set (organizeActions actions ! j))
          \<and> (0 < k \<longrightarrow>
                (\<exists>d \<in> entries (dependsOn a).
                   d \<in> action_id ` set (organizeActions actions ! (k - 1))))"
  proof (intro allI impI ballI conjI)
    fix k a
    assume k: "k < length (organizeActions actions)"
      and a: "a \<in> set (organizeActions actions ! k)"
    show "a \<in> set actions" using level_member(1)[OF k a] .
    { fix d assume "d \<in> entries (dependsOn a)"
      then show "\<exists>j < k. d \<in> action_id ` set (organizeActions actions ! j)"
        by (rule level_dependencies_earlier[OF k a]) }
    { fix j assume "j < k"
      then show "action_id a \<notin> action_id ` set (organizeActions actions ! j)"
        by (rule level_id_fresh[OF k a]) }
    { assume "0 < k"
      then show "\<exists>d \<in> entries (dependsOn a).
                   d \<in> action_id ` set (organizeActions actions ! (k - 1))"
        by (rule level_not_earlier[OF k a]) }
  qed
  have 4: "\<forall>k < length (organizeActions actions). subseq (organizeActions actions ! k) actions"
    using level_subseq by blast
  have 5: "actionLevels actions = organizeActions actions"
    by (simp add: actionLevels_def organizeActions_def)
  have 6: "unique_ids actions \<and> \<not> has_cycle actions \<and> \<not> has_dangling actions \<longrightarrow>
        set (concat (organizeActions actions)) = set actions"
  proof
    assume h: "unique_ids actions \<and> \<not> has_cycle actions \<and> \<not> has_dangling actions"
    then have "set actions \<subseteq> set (concat (organizeActions actions))"
      using intact_acyclic_imp_placed by blast
    then show "set (concat (organizeActions actions)) = set actions"
      using organizeActions_subset by blast
  qed
  show ?thesis by (rule conjI[OF 1 conjI[OF 2 conjI[OF 3 conjI[OF 4 conjI[OF 5 6]]]]])
qed

theorem organizeActions_levels_greedy_witness:
  "filter no_dependencies scenario1 \<noteq> []
   \<and> organizeActions scenario1
       = [[example_action ''A'' (Some []) False],
          [example_action ''B'' (Some [''A'']) False, example_action ''C'' (Some [''A'']) False],
          [example_action ''D'' (Some [''B'', ''C'']) False]]
   \<and> organizeActions scenario1 ! 0 = filter no_dependencies scenario1
   \<and> (2::nat) < length (organizeActions scenario1)
   \<and> example_action ''D'' (Some [''B'', ''C'']) False \<in> set (organizeActions scenario1 ! 2)
   \<and> ''B'' \<in> entries (dependsOn (example_action ''D'' (Some [''B'', ''C'']) False))
   \<and> (\<exists>j < 2. ''B'' \<in> action_id ` set (organizeActions scenario1 ! j))
   \<and> (\<exists>d \<in> entries (dependsOn (example_action ''D'' (Some [''B'', ''C'']) False)).
         d \<in> action_id ` set (organizeActions scenario1 ! (2 - 1)))
   \<and> subseq (organizeActions scenario1 ! 2) scenario1
   \<and> actionLevels scenario1 = organizeActions scenario1
   \<and> unique_ids scenario1 \<and> \<not> has_cycle scenario1 \<and> \<not> has_dangling scenario1
   \<and> set (concat (organizeActions scenario1)) = set scenario1"
proof -
  have ev: "organizeActions scenario1
       = [[example_action ''A'' (Some []) False],
          [example_action ''B'' (Some [''A'']) False, example_action ''C'' (Some [''A'']) False],
          [example_action ''D'' (Some [''B'', ''C'']) False]]"
    by (simp add: organizeActions_def scenario1_def organize_loop.simps no_dependencies_def
          example_action_def in_nextLevel_def processedActionIds_of_def)
  have ne: "filter no_dependencies scenario1 \<noteq> []"
    by (simp add: scenario1_def no_dependencies_def example_action_def)
  have k: "(2::nat) < length (organizeActions scenario1)"
    by (simp add: ev)
  have a: "example_action ''D'' (Some [''B'', ''C'']) False \<in> set (organizeActions scenario1 ! 2)"
    by (simp add: ev)
  have d: "''B'' \<in> entries (dependsOn (example_action ''D'' (Some [''B'', ''C'']) False))"
    by (simp add: entries_def example_action_def)
  note T = organizeActions_levels_greedy[of scenario1]
  have first: "organizeActions scenario1 ! 0 = filter no_dependencies scenario1"
    using T ne by blast
  have lev: "\<forall>a \<in> set (organizeActions scenario1 ! 2).
          a \<in> set scenario1
          \<and> (\<forall>d \<in> entries (dependsOn a).
                \<exists>j < 2. d \<in> action_id ` set (organizeActions scenario1 ! j))
          \<and> (\<forall>j < 2. action_id a \<notin> action_id ` set (organizeActions scenario1 ! j))
          \<and> (0 < (2::nat) \<longrightarrow>
                (\<exists>d \<in> entries (dependsOn a).
                   d \<in> action_id ` set (organizeActions scenario1 ! (2 - 1))))"
    using T[THEN conjunct2, THEN conjunct2, THEN conjunct1, rule_format, OF k] by blast
  have sub: "subseq (organizeActions scenario1 ! 2) scenario1"
    using T[THEN conjunct2, THEN conjunct2, THEN conjunct2, THEN conjunct1, rule_format, OF k] .
  have same: "actionLevels scenario1 = organizeActions scenario1"
    using T[THEN conjunct2, THEN conjunct2, THEN conjunct2, THEN conjunct2, THEN conjunct1] .
  have valid: "unique_ids scenario1 \<and> \<not> has_cycle scenario1 \<and> \<not> has_dangling scenario1"
    using unique_ids_scenario1 no_cycle_scenario1 no_dangling_scenario1 by (intro conjI)
  have whole: "set (concat (organizeActions scenario1)) = set scenario1"
    using T[THEN conjunct2, THEN conjunct2, THEN conjunct2, THEN conjunct2, THEN conjunct2]
      valid by (rule mp)
  note L = lev[rule_format, OF a]
  have e1: "\<exists>j < 2. ''B'' \<in> action_id ` set (organizeActions scenario1 ! j)"
    using L[THEN conjunct2, THEN conjunct1, rule_format, OF d] .
  have e2: "\<exists>d \<in> entries (dependsOn (example_action ''D'' (Some [''B'', ''C'']) False)).
         d \<in> action_id ` set (organizeActions scenario1 ! (2 - 1))"
    by (rule L[THEN conjunct2, THEN conjunct2, THEN conjunct2, rule_format]) simp
  show ?thesis
    using ne ev first k a d e1 e2 sub same unique_ids_scenario1 no_cycle_scenario1
      no_dangling_scenario1 whole by (intro conjI)
qed

section \<open>Collections the level organizer cannot place\<close>

text \<open>
  Claim C7 as amended. \<^verbatim>\<open>organizeActions\<close> has no failure: it returns levels for every
  collection, and the levels hold actions of the collection only. For a collection with
  unique ids they hold all of its actions exactly when the collection has no cycle and no
  dangling entry; otherwise the actions that were never placed are left out of the result.
\<close>

theorem organizeActions_complete_iff:
  assumes "unique_ids actions"
  shows "set (concat (organizeActions actions)) \<subseteq> set actions
       \<and> (set (concat (organizeActions actions)) = set actions
            \<longleftrightarrow> \<not> has_cycle actions \<and> \<not> has_dangling actions)"
proof -
  have 1: "set (concat (organizeActions actions)) \<subseteq> set actions"
    by (rule organizeActions_subset)
  have 2: "set (concat (organizeActions actions)) = set actions
            \<longleftrightarrow> \<not> has_cycle actions \<and> \<not> has_dangling actions"
  proof
    assume "set (concat (organizeActions actions)) = set actions"
    then show "\<not> has_cycle actions \<and> \<not> has_dangling actions"
      using placed_imp_acyclic placed_imp_intact by blast
  next
    assume "\<not> has_cycle actions \<and> \<not> has_dangling actions"
    then have "set actions \<subseteq> set (concat (organizeActions actions))"
      using intact_acyclic_imp_placed[OF assms] by blast
    then show "set (concat (organizeActions actions)) = set actions"
      using 1 by blast
  qed
  show ?thesis by (rule conjI[OF 1 2])
qed

theorem organizeActions_complete_iff_witness:
  "unique_ids scenario1
   \<and> set (concat (organizeActions scenario1)) = set scenario1
   \<and> \<not> has_cycle scenario1 \<and> \<not> has_dangling scenario1"
proof -
  have u: "unique_ids scenario1"
    by (simp add: unique_ids_def scenario1_def example_action_def)
  have ev: "organizeActions scenario1
       = [[example_action ''A'' (Some []) False],
          [example_action ''B'' (Some [''A'']) False, example_action ''C'' (Some [''A'']) False],
          [example_action ''D'' (Some [''B'', ''C'']) False]]"
    by (simp add: organizeActions_def scenario1_def organize_loop.simps no_dependencies_def
          example_action_def in_nextLevel_def processedActionIds_of_def)
  have s: "set (concat (organizeActions scenario1)) = set scenario1"
    unfolding ev by (auto simp: scenario1_def)
  show ?thesis
    using organizeActions_complete_iff[OF u] u s by blast
qed

text \<open>
  Claim C7 as stated fails: for the two actions that depend on each other the loop is never
  entered, the result is the empty list of levels and not an error, and both actions are
  missing from it.
\<close>

theorem organizeActions_omits_cyclic_actions:
  "has_cycle cyclic_pair
   \<and> organizeActions cyclic_pair = []
   \<and> set (concat (organizeActions cyclic_pair)) \<noteq> set cyclic_pair"
proof -
  have ev: "organizeActions cyclic_pair = []"
    by (simp add: organizeActions_def cyclic_pair_def organize_loop.simps no_dependencies_def
          example_action_def)
  have "set (concat (organizeActions cyclic_pair)) \<noteq> set cyclic_pair"
    unfolding ev by (simp add: cyclic_pair_def)
  then show ?thesis using has_cycle_cyclic_pair ev by blast
qed

section \<open>Editing dependencies keeps the collection acyclic\<close>

lemma map_action_id_setDependencies [simp]:
  "map action_id (setDependencies actions c deps) = map action_id actions"
  by (simp add: setDependencies_def comp_def if_distrib[of action_id])

lemma unique_ids_setDependencies [simp]:
  "unique_ids (setDependencies actions c deps) = unique_ids actions"
  by (simp add: unique_ids_def)

lemma findIndex_None: "findIndex P xs = None \<longleftrightarrow> (\<forall>x \<in> set xs. \<not> P x)"
  by (induction xs) (auto split: option.splits)

lemma findIndex_Some: "findIndex P xs = Some i \<Longrightarrow> i < length xs \<and> P (xs ! i)"
proof (induction xs arbitrary: i)
  case Nil
  then show ?case by simp
next
  case (Cons x xs)
  show ?case
  proof (cases "P x")
    case True
    with Cons.prems show ?thesis by simp
  next
    case False
    with Cons.prems obtain j where j: "findIndex P xs = Some j" "i = Suc j"
      by (auto split: option.splits)
    from Cons.IH[OF j(1)] j(2) show ?thesis by simp
  qed
qed

lemma map_replace_unique:
  assumes d: "distinct (map key xs)" and i: "i < length xs" and k: "key (xs ! i) = c"
  shows "map (\<lambda>a. if key a = c then g a else a) xs
           = take i xs @ [g (xs ! i)] @ drop (Suc i) xs"
proof -
  have "map (\<lambda>a. if key a = c then g a else a) xs = xs[i := g (xs ! i)]"
  proof (rule nth_equalityI)
    show "length (map (\<lambda>a. if key a = c then g a else a) xs) = length (xs[i := g (xs ! i)])"
      by simp
  next
    fix j assume "j < length (map (\<lambda>a. if key a = c then g a else a) xs)"
    then have j: "j < length xs" by simp
    show "map (\<lambda>a. if key a = c then g a else a) xs ! j = xs[i := g (xs ! i)] ! j"
    proof (cases "j = i")
      case True
      then show ?thesis using i k by simp
    next
      case False
      have "j < length (map key xs)" "i < length (map key xs)" using i j by simp_all
      then have "map key xs ! j \<noteq> map key xs ! i"
        using nth_eq_iff_index_eq[OF d] False by blast
      then have "key (xs ! j) \<noteq> c" using i j k by simp
      then show ?thesis using j False by simp
    qed
  qed
  then show ?thesis using i by (simp add: upd_conv_take_nth_drop)
qed

lemma map_replace_absent:
  assumes "c \<notin> key ` set xs"
  shows "map (\<lambda>a. if key a = c then g a else a) xs = xs"
  using assms by (induction xs) auto

lemma replace_in_first_step_concat:
  assumes "unique_ids (concat stepLists)"
  shows "concat (replace_in_first_step c deps stepLists) = setDependencies (concat stepLists) c deps"
  using assms
proof (induction stepLists)
  case Nil
  show ?case by (simp add: setDependencies_def)
next
  case (Cons elements rest)
  let ?f = "\<lambda>a. if action_id a = c then a\<lparr>dependsOn := Some deps\<rparr> else a"
  have d: "distinct (map action_id elements)" "distinct (map action_id (concat rest))"
      "action_id ` set elements \<inter> action_id ` set (concat rest) = {}"
    using Cons.prems by (auto simp: unique_ids_def)
  show ?case
  proof (cases "findIndex (\<lambda>el. action_id el = c) elements")
    case None
    then have "c \<notin> action_id ` set elements" by (auto simp: findIndex_None)
    then have "map ?f elements = elements" by (rule map_replace_absent)
    moreover have "concat (replace_in_first_step c deps rest) = map ?f (concat rest)"
      using Cons.IH d(2) by (simp add: unique_ids_def setDependencies_def)
    ultimately show ?thesis using None by (simp add: setDependencies_def)
  next
    case (Some i)
    then have i: "i < length elements" "action_id (elements ! i) = c"
      using findIndex_Some by blast+
    have "map ?f elements
            = take i elements @ [(elements ! i)\<lparr>dependsOn := Some deps\<rparr>] @ drop (Suc i) elements"
      using d(1) i by (rule map_replace_unique)
    moreover have "c \<in> action_id ` set elements" using i by (metis imageI nth_mem)
    then have "c \<notin> action_id ` set (concat rest)" using d(3) by blast
    then have "map ?f (concat rest) = concat rest" by (rule map_replace_absent)
    ultimately show ?thesis using Some by (simp add: setDependencies_def)
  qed
qed

lemma hypothetical_actionMap_values:
  assumes "unique_ids allActions"
  shows "map snd (hypothetical_actionMap c deps allActions) = setDependencies allActions c deps"
proof -
  let ?v = "\<lambda>a. if action_id a = c then a\<lparr>dependsOn := Some deps\<rparr> else a"
  have f: "(\<lambda>m action. if action_id action = c
                 then AList.update (action_id action) (action\<lparr>dependsOn := Some deps\<rparr>) m
                 else AList.update (action_id action) action m)
           = (\<lambda>m a. AList.update (action_id a) (?v a) m)"
    by (intro ext) simp
  have "hypothetical_actionMap c deps allActions
          = [] @ map (\<lambda>a. (action_id a, ?v a)) allActions"
    unfolding hypothetical_actionMap_def f
    using assms by (intro foldl_update_distinct) (simp_all add: unique_ids_def)
  then show ?thesis by (simp add: setDependencies_def comp_def)
qed

lemma depends_rel_setDependencies_old:
  assumes "(x, y) \<in> depends_rel (setDependencies actions c deps)" and "x \<noteq> c"
  shows "(x, y) \<in> depends_rel actions"
  using assms by (auto simp: depends_rel_def setDependencies_def split: if_splits)

lemma trancl_through:
  assumes step: "\<And>x y. (x, y) \<in> H \<Longrightarrow> x \<noteq> c \<Longrightarrow> (x, y) \<in> G"
    and xy: "(x, y) \<in> H\<^sup>+"
  shows "(x, y) \<in> G\<^sup>+ \<or> ((x, c) \<in> H\<^sup>* \<and> (c, y) \<in> H\<^sup>+)"
  using xy
proof (induction rule: trancl_induct)
  case (base y)
  then show ?case using step by (cases "x = c") auto
next
  case (step y z)
  show ?case
  proof (cases "y = c")
    case True
    have "(x, c) \<in> H\<^sup>*" using step.hyps(1) True by (simp add: trancl_into_rtrancl)
    moreover have "(c, z) \<in> H\<^sup>+" using step.hyps(2) True by blast
    ultimately show ?thesis by blast
  next
    case False
    then have yz: "(y, z) \<in> G" using assms(1) step.hyps(2) by blast
    from step.IH show ?thesis
    proof
      assume "(x, y) \<in> G\<^sup>+"
      then have "(x, z) \<in> G\<^sup>+" using yz by (rule trancl_into_trancl)
      then show ?thesis by blast
    next
      assume "(x, c) \<in> H\<^sup>* \<and> (c, y) \<in> H\<^sup>+"
      then have "(x, c) \<in> H\<^sup>*" "(c, z) \<in> H\<^sup>+"
        using step.hyps(2) by (auto intro: trancl_into_trancl)
      then show ?thesis by blast
    qed
  qed
qed

lemma new_cycle_through_edited:
  assumes "\<not> has_cycle actions" and "has_cycle (setDependencies actions c deps)"
  shows "(c, c) \<in> (depends_rel (setDependencies actions c deps))\<^sup>+"
proof -
  let ?H = "depends_rel (setDependencies actions c deps)"
  let ?G = "depends_rel actions"
  obtain x where x: "(x, x) \<in> ?H\<^sup>+" using assms(2) unfolding has_cycle_def by blast
  have "(x, x) \<in> ?G\<^sup>+ \<or> ((x, c) \<in> ?H\<^sup>* \<and> (c, x) \<in> ?H\<^sup>+)"
    using depends_rel_setDependencies_old x by (intro trancl_through) blast+
  moreover have "(x, x) \<notin> ?G\<^sup>+" using assms(1) unfolding has_cycle_def by blast
  ultimately have "(x, c) \<in> ?H\<^sup>*" "(c, x) \<in> ?H\<^sup>+" by blast+
  then show ?thesis by (meson trancl_rtrancl_trancl)
qed

lemma handleUpdateDependencies_cases:
  assumes u: "unique_ids (concat (elementsByStep st))"
  shows "has_cycle (setDependencies (concat (elementsByStep st)) c deps) \<Longrightarrow>
           elementsByStep (handleUpdateDependencies c deps st) = elementsByStep st
           \<and> page_error (handleUpdateDependencies c deps st) \<noteq> None"
    and "\<not> has_cycle (setDependencies (concat (elementsByStep st)) c deps) \<Longrightarrow>
           concat (elementsByStep (handleUpdateDependencies c deps st))
             = setDependencies (concat (elementsByStep st)) c deps"
proof -
  let ?H = "setDependencies (concat (elementsByStep st)) c deps"
  have v: "map snd (hypothetical_actionMap c deps (concat (elementsByStep st))) = ?H"
    using u by (rule hypothetical_actionMap_values)
  have iff: "(\<exists>err. checkForDependencyCycles dependsOn ?H = Inl err) \<longleftrightarrow> has_cycle ?H"
    using u by (intro checkForDependencyCycles_has_cycle) simp
  { assume "has_cycle ?H"
    then obtain err where "checkForDependencyCycles dependsOn ?H = Inl err"
      using iff by blast
    then show "elementsByStep (handleUpdateDependencies c deps st) = elementsByStep st
           \<and> page_error (handleUpdateDependencies c deps st) \<noteq> None"
      by (simp add: handleUpdateDependencies_def Let_def v) }
  { assume "\<not> has_cycle ?H"
    then have "checkForDependencyCycles dependsOn ?H = Inr ()"
      using iff by (cases "checkForDependencyCycles dependsOn ?H") auto
    then show "concat (elementsByStep (handleUpdateDependencies c deps st)) = ?H"
      using replace_in_first_step_concat[OF u]
      by (simp add: handleUpdateDependencies_def Let_def v) }
qed

lemma editor_checkCycle_frame:
  "\<forall>s'. editor_checkCycle m a s = (False, s') \<longrightarrow> recursionStack s' = recursionStack s"
  "\<forall>s'. editor_checkCycle_deps m a ds s = (False, s') \<longrightarrow> recursionStack s' = recursionStack s"
proof (induction m a s and m a ds s rule: editor_checkCycle_editor_checkCycle_deps.induct)
  case (1 tempDeps actionId s)
  show ?case
  proof (intro allI impI)
    fix s' assume res: "editor_checkCycle tempDeps actionId s = (False, s')"
    then have ns: "actionId \<notin> recursionStack s"
      by (auto simp: editor_checkCycle.simps split: if_splits)
    show "recursionStack s' = recursionStack s"
    proof (cases "actionId \<in> visited s")
      case True
      with res ns show ?thesis by (simp add: editor_checkCycle.simps)
    next
      case nv: False
      obtain r2 s2 where inner:
        "editor_checkCycle_deps tempDeps actionId (tempDeps_get tempDeps actionId)
           (enter actionId s) = (r2, s2)"
        by (cases "editor_checkCycle_deps tempDeps actionId (tempDeps_get tempDeps actionId)
                     (enter actionId s)")
      from res ns nv inner have r2: "\<not> r2" and s': "s' = leave actionId s2"
        by (auto simp: editor_checkCycle.simps split: if_splits)
      from "1.IH"[OF ns nv] inner r2
      have "recursionStack s2 = recursionStack (enter actionId s)" by simp
      then show ?thesis using s' ns by auto
    qed
  qed
next
  case (2 tempDeps actionId s)
  show ?case by simp
next
  case (3 tempDeps actionId depId dependencies s)
  show ?case
  proof (intro allI impI)
    fix s'
    assume res: "editor_checkCycle_deps tempDeps actionId (depId # dependencies) s = (False, s')"
    obtain r1 s1 where c1: "editor_checkCycle tempDeps depId s = (r1, s1)"
      by (cases "editor_checkCycle tempDeps depId s")
    from res c1 have r1: "\<not> r1"
      and rest: "editor_checkCycle_deps tempDeps actionId dependencies s1 = (False, s')"
      by (auto split: if_splits)
    from "3.IH"(1) c1 r1 have "recursionStack s1 = recursionStack s" by simp
    moreover from "3.IH"(2)[OF c1[symmetric] r1] rest
    have "recursionStack s' = recursionStack s1" by simp
    ultimately show "recursionStack s' = recursionStack s" by simp
  qed
qed

lemma tempDeps_rel_succ: "(a, y) \<in> tempDeps_rel m \<longleftrightarrow> y \<in> set (tempDeps_get m a)"
  by (simp add: tempDeps_rel_def)

lemma editor_checkCycle_inv:
  "dfs_inv (tempDeps_rel m) s \<longrightarrow>
     (\<forall>s'. editor_checkCycle m a s = (False, s') \<longrightarrow>
        dfs_inv (tempDeps_rel m) s' \<and> finished s \<subseteq> finished s' \<and> a \<in> finished s')"
  "dfs_inv (tempDeps_rel m) s \<longrightarrow>
     (\<forall>s'. editor_checkCycle_deps m a ds s = (False, s') \<longrightarrow>
        dfs_inv (tempDeps_rel m) s' \<and> finished s \<subseteq> finished s' \<and> set ds \<subseteq> finished s')"
proof (induction m a s and m a ds s rule: editor_checkCycle_editor_checkCycle_deps.induct)
  case (1 tempDeps actionId s)
  let ?E = "tempDeps_rel tempDeps"
  show ?case
  proof (intro allI impI)
    fix s'
    assume inv: "dfs_inv ?E s"
      and res: "editor_checkCycle tempDeps actionId s = (False, s')"
    from res have ns: "actionId \<notin> recursionStack s"
      by (auto simp: editor_checkCycle.simps split: if_splits)
    show "dfs_inv ?E s' \<and> finished s \<subseteq> finished s' \<and> actionId \<in> finished s'"
    proof (cases "actionId \<in> visited s")
      case True
      with res ns have "s' = s" by (simp add: editor_checkCycle.simps)
      then show ?thesis using inv True ns by (simp add: finished_def)
    next
      case nv: False
      note inv1 = dfs_inv_enter[OF inv nv]
      obtain r2 s2 where inner:
        "editor_checkCycle_deps tempDeps actionId (tempDeps_get tempDeps actionId)
           (enter actionId s) = (r2, s2)"
        by (cases "editor_checkCycle_deps tempDeps actionId (tempDeps_get tempDeps actionId)
                     (enter actionId s)")
      from res ns nv inner have r2: "\<not> r2" and s': "s' = leave actionId s2"
        by (auto simp: editor_checkCycle.simps split: if_splits)
      have inner': "editor_checkCycle_deps tempDeps actionId (tempDeps_get tempDeps actionId)
           (enter actionId s) = (False, s2)"
        using inner r2 by simp
      from "1.IH"[OF ns nv] inv1(1) inner'
      have i2: "dfs_inv ?E s2" "finished (enter actionId s) \<subseteq> finished s2"
          "set (tempDeps_get tempDeps actionId) \<subseteq> finished s2"
        by blast+
      have st2: "recursionStack s2 = recursionStack (enter actionId s)"
        using editor_checkCycle_frame(2) inner' by blast
      have sub2: "recursionStack s2 \<subseteq> visited s2" using i2(1) by (simp add: dfs_inv_def)
      have a2: "actionId \<in> visited s2" "actionId \<in> recursionStack s2"
        using st2 sub2 by auto
      have "\<forall>y. (actionId, y) \<in> ?E \<longrightarrow> y \<in> finished s2"
        using i2(3) by (auto simp: tempDeps_rel_succ)
      from dfs_inv_finish[OF i2(1) a2 this] show ?thesis
        unfolding s' using i2(2) inv1(2) by auto
    qed
  qed
next
  case (2 tempDeps actionId s)
  show ?case by simp
next
  case (3 tempDeps actionId depId dependencies s)
  let ?E = "tempDeps_rel tempDeps"
  show ?case
  proof (intro allI impI)
    fix s'
    assume inv: "dfs_inv ?E s"
      and res: "editor_checkCycle_deps tempDeps actionId (depId # dependencies) s = (False, s')"
    obtain r1 s1 where c1: "editor_checkCycle tempDeps depId s = (r1, s1)"
      by (cases "editor_checkCycle tempDeps depId s")
    from res c1 have r1: "\<not> r1"
      and rest: "editor_checkCycle_deps tempDeps actionId dependencies s1 = (False, s')"
      by (auto split: if_splits)
    from "3.IH"(1) inv c1 r1
    have i1: "dfs_inv ?E s1" "finished s \<subseteq> finished s1" "depId \<in> finished s1"
      by simp_all
    from "3.IH"(2)[OF c1[symmetric] r1] i1(1) rest
    have "dfs_inv ?E s' \<and> finished s1 \<subseteq> finished s' \<and> set dependencies \<subseteq> finished s'"
      by blast
    then show "dfs_inv ?E s' \<and> finished s \<subseteq> finished s'
        \<and> set (depId # dependencies) \<subseteq> finished s'"
      using i1 by auto
  qed
qed

lemma editor_checkCycle_sound:
  "(\<forall>x \<in> recursionStack s. (x, a) \<in> (tempDeps_rel m)\<^sup>+) \<longrightarrow>
     (\<forall>s'. editor_checkCycle m a s = (True, s') \<longrightarrow> (\<exists>x. (x, x) \<in> (tempDeps_rel m)\<^sup>+))"
  "(\<forall>x \<in> recursionStack s. (x, a) \<in> (tempDeps_rel m)\<^sup>*)
   \<and> (\<forall>d \<in> set ds. (a, d) \<in> tempDeps_rel m) \<longrightarrow>
     (\<forall>s'. editor_checkCycle_deps m a ds s = (True, s') \<longrightarrow>
        (\<exists>x. (x, x) \<in> (tempDeps_rel m)\<^sup>+))"
proof (induction m a s and m a ds s rule: editor_checkCycle_editor_checkCycle_deps.induct)
  case (1 tempDeps actionId s)
  let ?E = "tempDeps_rel tempDeps"
  show ?case
  proof (intro allI impI)
    fix s'
    assume pre: "\<forall>x \<in> recursionStack s. (x, actionId) \<in> ?E\<^sup>+"
      and res: "editor_checkCycle tempDeps actionId s = (True, s')"
    show "\<exists>x. (x, x) \<in> ?E\<^sup>+"
    proof (cases "actionId \<in> recursionStack s")
      case True
      then show ?thesis using pre by blast
    next
      case ns: False
      from res ns have nv: "actionId \<notin> visited s"
        by (auto simp: editor_checkCycle.simps split: if_splits)
      obtain r2 s2 where inner:
        "editor_checkCycle_deps tempDeps actionId (tempDeps_get tempDeps actionId)
           (enter actionId s) = (r2, s2)"
        by (cases "editor_checkCycle_deps tempDeps actionId (tempDeps_get tempDeps actionId)
                     (enter actionId s)")
      from res ns nv inner have r2: "r2"
        by (auto simp: editor_checkCycle.simps split: if_splits)
      have p1: "\<forall>x \<in> recursionStack (enter actionId s). (x, actionId) \<in> ?E\<^sup>*"
      proof
        fix x assume "x \<in> recursionStack (enter actionId s)"
        then have "x = actionId \<or> x \<in> recursionStack s" by simp
        then show "(x, actionId) \<in> ?E\<^sup>*"
        proof
          assume "x = actionId"
          then show ?thesis by simp
        next
          assume "x \<in> recursionStack s"
          then have "(x, actionId) \<in> ?E\<^sup>+" using pre by blast
          then show ?thesis by (rule trancl_into_rtrancl)
        qed
      qed
      have p2: "\<forall>d \<in> set (tempDeps_get tempDeps actionId). (actionId, d) \<in> ?E"
        by (simp add: tempDeps_rel_succ)
      have inner': "editor_checkCycle_deps tempDeps actionId (tempDeps_get tempDeps actionId)
           (enter actionId s) = (True, s2)"
        using inner r2 by simp
      show ?thesis
        by (rule "1.IH"[OF ns nv, THEN mp, OF conjI[OF p1 p2], THEN spec, THEN mp, OF inner'])
    qed
  qed
next
  case (2 tempDeps actionId s)
  show ?case by simp
next
  case (3 tempDeps actionId depId dependencies s)
  let ?E = "tempDeps_rel tempDeps"
  show ?case
  proof (intro allI impI)
    fix s'
    assume pre: "(\<forall>x \<in> recursionStack s. (x, actionId) \<in> ?E\<^sup>*)
        \<and> (\<forall>d \<in> set (depId # dependencies). (actionId, d) \<in> ?E)"
      and res: "editor_checkCycle_deps tempDeps actionId (depId # dependencies) s = (True, s')"
    have edge: "(actionId, depId) \<in> ?E" using pre by simp
    have path: "\<forall>x \<in> recursionStack s. (x, actionId) \<in> ?E\<^sup>*" using pre by blast
    have path_d: "\<forall>x \<in> recursionStack s. (x, depId) \<in> ?E\<^sup>+"
      using path edge by (meson rtrancl_into_trancl1)
    obtain r1 s1 where c1: "editor_checkCycle tempDeps depId s = (r1, s1)"
      by (cases "editor_checkCycle tempDeps depId s")
    show "\<exists>x. (x, x) \<in> ?E\<^sup>+"
    proof (cases r1)
      case True
      then have c1': "editor_checkCycle tempDeps depId s = (True, s1)" using c1 by simp
      show ?thesis
        by (rule "3.IH"(1)[THEN mp, OF path_d, THEN spec, THEN mp, OF c1'])
    next
      case False
      with res c1
      have rest: "editor_checkCycle_deps tempDeps actionId dependencies s1 = (True, s')"
        by simp
      have c1': "editor_checkCycle tempDeps depId s = (False, s1)" using c1 False by simp
      have "recursionStack s1 = recursionStack s"
        by (rule editor_checkCycle_frame(1)[THEN spec, THEN mp, OF c1'])
      then have pre1: "(\<forall>x \<in> recursionStack s1. (x, actionId) \<in> ?E\<^sup>*)
          \<and> (\<forall>d \<in> set dependencies. (actionId, d) \<in> ?E)"
        using pre by simp
      show ?thesis
        by (rule "3.IH"(2)[OF c1[symmetric] False, THEN mp, OF pre1, THEN spec, THEN mp, OF rest])
    qed
  qed
qed

lemma tempDeps_of_unique:
  assumes "unique_ids actions"
  shows "tempDeps_of actions c deps
           = map (\<lambda>a. (action_id a,
                        if action_id a = c then deps
                        else (case dependsOn a of Some ds \<Rightarrow> ds | None \<Rightarrow> []))) actions"
proof -
  let ?v = "\<lambda>a. if action_id a = c then deps
                 else (case dependsOn a of Some ds \<Rightarrow> ds | None \<Rightarrow> [])"
  have f: "(\<lambda>m action. if action_id action = c
                 then AList.update (action_id action) deps m
                 else (case dependsOn action of
                         Some ds \<Rightarrow> AList.update (action_id action) ds m
                       | None \<Rightarrow> AList.update (action_id action) [] m))
           = (\<lambda>m a. AList.update (action_id a) (?v a) m)"
    by (intro ext) (simp split: option.splits)
  have "tempDeps_of actions c deps = [] @ map (\<lambda>a. (action_id a, ?v a)) actions"
    unfolding tempDeps_of_def f
    using assms by (intro foldl_update_distinct) (simp_all add: unique_ids_def)
  then show ?thesis by simp
qed

lemma tempDeps_rel_setDependencies:
  assumes "unique_ids actions"
  shows "tempDeps_rel (tempDeps_of actions c deps)
           = depends_rel (setDependencies actions c deps)"
proof -
  define v :: "TaskAction \<Rightarrow> string list" where
    "v = (\<lambda>a. if action_id a = c then deps
               else (case dependsOn a of Some ds \<Rightarrow> ds | None \<Rightarrow> []))"
  define m where "m = map (\<lambda>a. (action_id a, v a)) actions"
  have tm: "tempDeps_of actions c deps = m"
    unfolding m_def v_def by (rule tempDeps_of_unique[OF assms])
  have keys: "fst ` set m = action_id ` set actions"
    unfolding m_def by force
  have get: "y \<in> set (tempDeps_get m x)
               \<longleftrightarrow> (\<exists>a \<in> set actions. action_id a = x \<and> y \<in> set (v a))" for x y
  proof (cases "map_of m x")
    case None
    then have "x \<notin> fst ` set m" by (simp add: map_of_eq_None_iff)
    then have "\<not> (\<exists>a \<in> set actions. action_id a = x \<and> y \<in> set (v a))"
      unfolding keys by blast
    moreover have "tempDeps_get m x = []" using None by (simp add: tempDeps_get_def)
    ultimately show ?thesis by simp
  next
    case (Some ds)
    then have "(x, ds) \<in> set m" by (rule map_of_SomeD)
    then obtain a where a: "a \<in> set actions" "action_id a = x" "ds = v a"
      unfolding m_def by auto
    have L: "tempDeps_get m x = v a" using Some a(3) by (simp add: tempDeps_get_def)
    show ?thesis
      unfolding L
    proof
      assume "y \<in> set (v a)"
      then show "\<exists>a \<in> set actions. action_id a = x \<and> y \<in> set (v a)"
        using a(1,2) by (intro bexI[of _ a] conjI)
    next
      assume "\<exists>b \<in> set actions. action_id b = x \<and> y \<in> set (v b)"
      then obtain b where b: "b \<in> set actions" "action_id b = x" "y \<in> set (v b)" by blast
      have "b = a" using assms b(1) a(1) by (rule unique_ids_same) (simp add: a(2) b(2))
      then show "y \<in> set (v a)" using b(3) by simp
    qed
  qed
  have ent: "set (v a) = entries (dependsOn (if action_id a = c
                            then a\<lparr>dependsOn := Some deps\<rparr> else a))" for a
    unfolding v_def by (cases "dependsOn a") (simp_all add: entries_def)
  have dep: "(x, y) \<in> depends_rel (setDependencies actions c deps)
               \<longleftrightarrow> (\<exists>a \<in> set actions. action_id a = x \<and> y \<in> set (v a))" for x y
  proof
    assume "(x, y) \<in> depends_rel (setDependencies actions c deps)"
    then obtain a' where a': "a' \<in> set (setDependencies actions c deps)"
        "action_id a' = x" "y \<in> entries (dependsOn a')"
      unfolding depends_rel_def by blast
    then obtain a where a: "a \<in> set actions"
        "a' = (if action_id a = c then a\<lparr>dependsOn := Some deps\<rparr> else a)"
      unfolding setDependencies_def by auto
    have "action_id a = x" using a(2) a'(2) by (simp split: if_splits)
    moreover have "y \<in> set (v a)" using a'(3) unfolding ent a(2) .
    ultimately show "\<exists>a \<in> set actions. action_id a = x \<and> y \<in> set (v a)"
      using a(1) by blast
  next
    assume "\<exists>a \<in> set actions. action_id a = x \<and> y \<in> set (v a)"
    then obtain a where a: "a \<in> set actions" "action_id a = x" "y \<in> set (v a)" by blast
    let ?a' = "if action_id a = c then a\<lparr>dependsOn := Some deps\<rparr> else a"
    have "?a' \<in> set (setDependencies actions c deps)"
      unfolding setDependencies_def set_map using a(1) by (rule imageI)
    moreover have "action_id ?a' = x" using a(2) by simp
    moreover have "y \<in> entries (dependsOn ?a')" using a(3) unfolding ent .
    ultimately show "(x, y) \<in> depends_rel (setDependencies actions c deps)"
      unfolding depends_rel_def by blast
  qed
  show ?thesis
  proof (intro set_eqI)
    fix p :: "string \<times> string"
    obtain x y where p: "p = (x, y)" by (cases p)
    show "p \<in> tempDeps_rel (tempDeps_of actions c deps)
            \<longleftrightarrow> p \<in> depends_rel (setDependencies actions c deps)"
      unfolding p tm dep using get[of y x] by (simp add: tempDeps_rel_def)
  qed
qed

lemma handleSave_iff:
  assumes u: "unique_ids actions" and nc: "\<not> has_cycle actions"
  shows "handleSave actions c deps = SetError \<longleftrightarrow> has_cycle (setDependencies actions c deps)"
    and "handleSave actions c deps \<noteq> SetError
           \<Longrightarrow> handleSave actions c deps = OnUpdateDependencies c deps"
proof -
  let ?m = "tempDeps_of actions c deps"
  let ?s0 = "\<lparr>visited = {}, recursionStack = {}\<rparr>"
  have rel: "tempDeps_rel ?m = depends_rel (setDependencies actions c deps)"
    using u by (rule tempDeps_rel_setDependencies)
  obtain r s' where run: "editor_checkCycle ?m c ?s0 = (r, s')"
    by (cases "editor_checkCycle ?m c ?s0")
  have hs: "handleSave actions c deps = (if r then SetError else OnUpdateDependencies c deps)"
    using run by (simp add: handleSave_def Let_def)
  show "handleSave actions c deps = SetError \<longleftrightarrow> has_cycle (setDependencies actions c deps)"
  proof
    assume "handleSave actions c deps = SetError"
    then have r using hs by (simp split: if_splits)
    then have "\<exists>x. (x, x) \<in> (tempDeps_rel ?m)\<^sup>+"
      using editor_checkCycle_sound(1)[of ?s0 c ?m] run by simp
    then show "has_cycle (setDependencies actions c deps)"
      unfolding rel has_cycle_def .
  next
    assume hc: "has_cycle (setDependencies actions c deps)"
    have cc: "(c, c) \<in> (tempDeps_rel ?m)\<^sup>+"
      unfolding rel using nc hc by (rule new_cycle_through_edited)
    have r
    proof (rule ccontr)
      assume "\<not> r"
      then have "editor_checkCycle ?m c ?s0 = (False, s')" using run by simp
      with editor_checkCycle_inv(1)[of ?m ?s0 c] dfs_inv_init
      have "dfs_inv (tempDeps_rel ?m) s'" "c \<in> finished s'" by blast+
      then have "(c, c) \<notin> (tempDeps_rel ?m)\<^sup>+" by (simp add: dfs_inv_def)
      then show False using cc by simp
    qed
    then show "handleSave actions c deps = SetError" using hs by simp
  qed
  show "handleSave actions c deps \<noteq> SetError
           \<Longrightarrow> handleSave actions c deps = OnUpdateDependencies c deps"
    using hs by (simp split: if_splits)
qed

lemma handleUpdateDependencies_preserves:
  assumes "unique_ids (concat (elementsByStep st))"
    and "\<not> has_cycle (concat (elementsByStep st))"
  shows "unique_ids (concat (elementsByStep (handleUpdateDependencies c deps st)))
       \<and> \<not> has_cycle (concat (elementsByStep (handleUpdateDependencies c deps st)))"
proof (cases "has_cycle (setDependencies (concat (elementsByStep st)) c deps)")
  case True
  from handleUpdateDependencies_cases(1)[OF assms(1) True]
  have "elementsByStep (handleUpdateDependencies c deps st) = elementsByStep st" by blast
  then show ?thesis using assms by simp
next
  case False
  from handleUpdateDependencies_cases(2)[OF assms(1) False]
  have "concat (elementsByStep (handleUpdateDependencies c deps st))
          = setDependencies (concat (elementsByStep st)) c deps" .
  then show ?thesis using assms(1) False by simp
qed

lemma edits_preserve:
  assumes "unique_ids (concat (elementsByStep st))"
    and "\<not> has_cycle (concat (elementsByStep st))"
  shows "unique_ids (concat (elementsByStep
            (foldl (\<lambda>s (a, d). handleUpdateDependencies a d s) st edits)))
       \<and> \<not> has_cycle (concat (elementsByStep
            (foldl (\<lambda>s (a, d). handleUpdateDependencies a d s) st edits)))"
  using assms
proof (induction edits arbitrary: st)
  case Nil
  then show ?case by simp
next
  case (Cons e edits)
  obtain a d where e: "e = (a, d)" by (cases e)
  from handleUpdateDependencies_preserves[OF Cons.prems, of a d]
  have "unique_ids (concat (elementsByStep (handleUpdateDependencies a d st)))"
    "\<not> has_cycle (concat (elementsByStep (handleUpdateDependencies a d st)))"
    by blast+
  from Cons.IH[OF this] show ?case by (simp add: e)
qed

text \<open>
  Claim C2. For a template page whose actions have unique ids:
  \<^verbatim>\<open>handleUpdateDependencies\<close> leaves \<^verbatim>\<open>elementsByStep\<close> as it is and sets the error
  when the collection with the new \<^verbatim>\<open>dependsOn\<close> list would have a cycle, and otherwise
  commits exactly that collection; so from an acyclic collection every sequence of edits
  ends in an acyclic collection. For an acyclic collection with unique ids,
  \<^verbatim>\<open>DependencyEditor.handleSave\<close> sets its error exactly when the edit would create a
  cycle, and otherwise hands the edit to its callback, the resulting collection being
  acyclic.
\<close>

theorem dependency_edits_keep_acyclic:
  assumes "unique_ids (concat (elementsByStep st))" and "unique_ids actions"
  shows "(has_cycle (setDependencies (concat (elementsByStep st)) c deps) \<longrightarrow>
            elementsByStep (handleUpdateDependencies c deps st) = elementsByStep st
            \<and> page_error (handleUpdateDependencies c deps st) \<noteq> None)
       \<and> (\<not> has_cycle (setDependencies (concat (elementsByStep st)) c deps) \<longrightarrow>
            concat (elementsByStep (handleUpdateDependencies c deps st))
              = setDependencies (concat (elementsByStep st)) c deps)
       \<and> (\<not> has_cycle (concat (elementsByStep st)) \<longrightarrow>
            \<not> has_cycle (concat (elementsByStep
                 (foldl (\<lambda>s (a, d). handleUpdateDependencies a d s) st edits))))
       \<and> (\<not> has_cycle actions \<longrightarrow>
            (handleSave actions c deps = SetError
               \<longleftrightarrow> has_cycle (setDependencies actions c deps))
            \<and> (handleSave actions c deps \<noteq> SetError \<longrightarrow>
                 handleSave actions c deps = OnUpdateDependencies c deps
                 \<and> \<not> has_cycle (setDependencies actions c deps)))"
proof -
  have 1: "has_cycle (setDependencies (concat (elementsByStep st)) c deps) \<longrightarrow>
            elementsByStep (handleUpdateDependencies c deps st) = elementsByStep st
            \<and> page_error (handleUpdateDependencies c deps st) \<noteq> None"
    using handleUpdateDependencies_cases(1)[OF assms(1)] by (rule impI)
  have 2: "\<not> has_cycle (setDependencies (concat (elementsByStep st)) c deps) \<longrightarrow>
            concat (elementsByStep (handleUpdateDependencies c deps st))
              = setDependencies (concat (elementsByStep st)) c deps"
    using handleUpdateDependencies_cases(2)[OF assms(1)] by (rule impI)
  have 3: "\<not> has_cycle (concat (elementsByStep st)) \<longrightarrow>
            \<not> has_cycle (concat (elementsByStep
                 (foldl (\<lambda>s (a, d). handleUpdateDependencies a d s) st edits)))"
  proof
    assume "\<not> has_cycle (concat (elementsByStep st))"
    from edits_preserve[OF assms(1) this, of edits]
    show "\<not> has_cycle (concat (elementsByStep
                 (foldl (\<lambda>s (a, d). handleUpdateDependencies a d s) st edits)))"
      by (rule conjunct2)
  qed
  have 4: "\<not> has_cycle actions \<longrightarrow>
            (handleSave actions c deps = SetError
               \<longleftrightarrow> has_cycle (setDependencies actions c deps))
            \<and> (handleSave actions c deps \<noteq> SetError \<longrightarrow>
                 handleSave actions c deps = OnUpdateDependencies c deps
                 \<and> \<not> has_cycle (setDependencies actions c deps))"
  proof
    assume nc: "\<not> has_cycle actions"
    note hs = handleSave_iff[OF assms(2) nc, of c deps]
    have a: "handleSave actions c deps = SetError
               \<longleftrightarrow> has_cycle (setDependencies actions c deps)"
      by (rule hs(1))
    have b: "handleSave actions c deps \<noteq> SetError \<longrightarrow>
                 handleSave actions c deps = OnUpdateDependencies c deps
                 \<and> \<not> has_cycle (setDependencies actions c deps)"
    proof
      assume n: "handleSave actions c deps \<noteq> SetError"
      then have "handleSave actions c deps = OnUpdateDependencies c deps" by (rule hs(2))
      moreover have "\<not> has_cycle (setDependencies actions c deps)" using n a by simp
      ultimately show "handleSave actions c deps = OnUpdateDependencies c deps
                 \<and> \<not> has_cycle (setDependencies actions c deps)" by (rule conjI)
    qed
    show "(handleSave actions c deps = SetError
               \<longleftrightarrow> has_cycle (setDependencies actions c deps))
            \<and> (handleSave actions c deps \<noteq> SetError \<longrightarrow>
                 handleSave actions c deps = OnUpdateDependencies c deps
                 \<and> \<not> has_cycle (setDependencies actions c deps))"
      by (rule conjI[OF a b])
  qed
  show ?thesis by (rule conjI[OF 1 conjI[OF 2 conjI[OF 3 4]]])
qed

lemma concat_example_page: "concat (elementsByStep example_page) = scenario1"
  by (simp add: example_page_def scenario1_def)

lemma has_cycle_A_on_D: "has_cycle (setDependencies scenario1 ''A'' [''D''])"
proof -
  let ?r = "depends_rel (setDependencies scenario1 ''A'' [''D''])"
  have e: "(''A'', ''D'') \<in> ?r" "(''D'', ''B'') \<in> ?r" "(''B'', ''A'') \<in> ?r"
    by (simp_all add: depends_rel_def setDependencies_def scenario1_def example_action_def
          entries_def)
  have "(''A'', ''B'') \<in> ?r\<^sup>+" using e(1,2) by (meson trancl.simps)
  then have "(''A'', ''A'') \<in> ?r\<^sup>+" using e(3) by (rule trancl_into_trancl)
  then show ?thesis unfolding has_cycle_def by blast
qed

theorem dependency_edits_keep_acyclic_witness:
  "unique_ids (concat (elementsByStep example_page))
   \<and> unique_ids scenario1
   \<and> \<not> has_cycle (concat (elementsByStep example_page))
   \<and> \<not> has_cycle scenario1
   \<and> has_cycle (setDependencies (concat (elementsByStep example_page)) ''A'' [''D''])
   \<and> elementsByStep (handleUpdateDependencies ''A'' [''D''] example_page)
       = elementsByStep example_page
   \<and> page_error (handleUpdateDependencies ''A'' [''D''] example_page) \<noteq> None
   \<and> \<not> has_cycle (concat (elementsByStep
         (foldl (\<lambda>s (a, d). handleUpdateDependencies a d s) example_page
            [(''A'', [''D'']), (''D'', [''B''])])))
   \<and> handleSave scenario1 ''A'' [''D''] = SetError"
proof -
  have u: "unique_ids (concat (elementsByStep example_page))"
    unfolding concat_example_page by (rule unique_ids_scenario1)
  have nc: "\<not> has_cycle (concat (elementsByStep example_page))"
    unfolding concat_example_page by (rule no_cycle_scenario1)
  have hc: "has_cycle (setDependencies (concat (elementsByStep example_page)) ''A'' [''D''])"
    unfolding concat_example_page by (rule has_cycle_A_on_D)
  note T = dependency_edits_keep_acyclic[OF u unique_ids_scenario1,
      of "''A''" "[''D'']" "[(''A'', [''D'']), (''D'', [''B''])]"]
  have 1: "elementsByStep (handleUpdateDependencies ''A'' [''D''] example_page)
       = elementsByStep example_page
       \<and> page_error (handleUpdateDependencies ''A'' [''D''] example_page) \<noteq> None"
    using T[THEN conjunct1] hc by (rule mp)
  have 3: "\<not> has_cycle (concat (elementsByStep
         (foldl (\<lambda>s (a, d). handleUpdateDependencies a d s) example_page
            [(''A'', [''D'']), (''D'', [''B''])])))"
    using T[THEN conjunct2, THEN conjunct2, THEN conjunct1] nc by (rule mp)
  have 4: "handleSave scenario1 ''A'' [''D''] = SetError"
    using T[THEN conjunct2, THEN conjunct2, THEN conjunct2, THEN mp, OF no_cycle_scenario1,
            THEN conjunct1]
      has_cycle_A_on_D by (rule iffD2)
  show ?thesis
    using u unique_ids_scenario1 nc no_cycle_scenario1 hc 1 3 4 by (intro conjI) blast+
qed

end
